theory Spec2Isabelle
  imports Main
begin

section \<open>Python values used by the controller\<close>

text \<open>
  A Python \<open>str\<close> is modelled as a \<^typ>\<open>string\<close> whose characters are the code
  points below 256. The exceptions the source can raise are values of \<open>py_error\<close>;
  a fallible function returns \<open>py_error + 'a\<close> with \<open>Inl\<close> for the raise.
\<close>

datatype py_error = ValueError | IndexError

text \<open>\<open>str.split(sep, 1)\<close>: at most one split, at the first occurrence of \<open>sep\<close>.\<close>

definition split1 :: "char \<Rightarrow> string \<Rightarrow> string list" where
  "split1 sep s =
     (case dropWhile (\<lambda>c. c \<noteq> sep) s of
        [] \<Rightarrow> [s]
      | _ # r \<Rightarrow> [takeWhile (\<lambda>c. c \<noteq> sep) s, r])"

text \<open>\<open>xs[i]\<close> for a non-negative index; \<open>None\<close> stands for the IndexError.\<close>

definition py_index :: "'a list \<Rightarrow> nat \<Rightarrow> 'a option" where
  "py_index xs i = (if i < length xs then Some (xs ! i) else None)"

section \<open>Image reference parser (\<open>Cioban.__get_image_parts\<close>)\<close>

text \<open>
  \<open>image_parts[0]\<close> is read with no handler, so an IndexError there would leave the
  function; \<open>image_parts[1]\<close> is read under \<open>except IndexError: pass\<close>, which leaves
  \<open>image_sha\<close> at \<open>None\<close>.
\<close>

definition get_image_parts :: "string \<Rightarrow> py_error + (string \<times> string option)" where
  "get_image_parts image_with_digest =
     (let image_parts = split1 (CHR ''@'') image_with_digest in
      case py_index image_parts 0 of
        None \<Rightarrow> Inl IndexError
      | Some img \<Rightarrow> Inr (img, py_index image_parts 1))"

text \<open>The parser as the specification words it: split on the first \<open>@\<close>.\<close>

definition spec_parse_reference :: "string \<Rightarrow> string \<times> string option" where
  "spec_parse_reference s =
     (if CHR ''@'' \<in> set s
      then (takeWhile (\<lambda>c. c \<noteq> CHR ''@'') s, Some (tl (dropWhile (\<lambda>c. c \<noteq> CHR ''@'') s)))
      else (s, None))"

section \<open>Sleep interval (\<open>Cioban.__init__\<close>)\<close>

datatype sleep_type = Seconds | Minutes | Hours | Days | Weeks

text \<open>The dictionary \<open>relation\<close>; \<open>None\<close> is a key that is not in it.\<close>

definition relation :: "char \<Rightarrow> sleep_type option" where
  "relation c =
     (if c = CHR ''s'' then Some Seconds
      else if c = CHR ''m'' then Some Minutes
      else if c = CHR ''h'' then Some Hours
      else if c = CHR ''d'' then Some Days
      else if c = CHR ''w'' then Some Weeks
      else None)"

text \<open>
  \<open>str.isalpha\<close> on one code point below 256: the ASCII letters and the letters of
  the Latin-1 block (\<open>0xAA\<close>, \<open>0xB5\<close>, \<open>0xBA\<close>, \<open>0xC0..0xD6\<close>, \<open>0xD8..0xF6\<close>,
  \<open>0xF8..0xFF\<close>).
\<close>

definition isalpha :: "char \<Rightarrow> bool" where
  "isalpha c =
     (let n = (of_char c :: nat) in
      (65 \<le> n \<and> n \<le> 90) \<or> (97 \<le> n \<and> n \<le> 122) \<or> n = 170 \<or> n = 181 \<or> n = 186 \<or>
      (192 \<le> n \<and> n \<le> 214) \<or> (216 \<le> n \<and> n \<le> 246) \<or> (248 \<le> n \<and> n \<le> 255))"

definition isdigit :: "char \<Rightarrow> bool" where
  "isdigit c = (let n = (of_char c :: nat) in 48 \<le> n \<and> n \<le> 57)"

definition digit_val :: "char \<Rightarrow> nat" where
  "digit_val c = of_char c - 48"

text \<open>
  The white space \<open>int\<close> skips around the number: tab, line feed, vertical tab, form
  feed, carriage return and space, and of the code points above 127 the two that are
  Unicode spaces (\<open>0x85\<close>, \<open>0xA0\<close>).
\<close>

definition int_space :: "char \<Rightarrow> bool" where
  "int_space c =
     (let n = (of_char c :: nat) in (9 \<le> n \<and> n \<le> 13) \<or> n = 32 \<or> n = 133 \<or> n = 160)"

text \<open>
  The digits of a decimal literal after its first digit: digits, each optionally
  preceded by one underscore. \<open>None\<close> is the ValueError.
\<close>

fun int_digits :: "nat \<Rightarrow> string \<Rightarrow> nat option" where
  "int_digits acc [] = Some acc"
| "int_digits acc [c] = (if isdigit c then Some (10 * acc + digit_val c) else None)"
| "int_digits acc (c # d # cs) =
     (if isdigit c then int_digits (10 * acc + digit_val c) (d # cs)
      else if c = CHR ''_'' \<and> isdigit d then int_digits (10 * acc + digit_val d) cs
      else None)"

definition int_unsigned :: "string \<Rightarrow> nat option" where
  "int_unsigned s =
     (case s of
        [] \<Rightarrow> None
      | c # cs \<Rightarrow> if isdigit c then int_digits (digit_val c) cs else None)"

text \<open>
  \<open>int(s)\<close> for a string, base 10: white space stripped at both ends, an optional
  sign, then the digits.
\<close>

definition py_int :: "string \<Rightarrow> int option" where
  "py_int s =
     (let t = rev (dropWhile int_space (rev (dropWhile int_space s))) in
      case t of
        [] \<Rightarrow> None
      | c # cs \<Rightarrow>
          if c = CHR ''-'' then map_option (\<lambda>n. - int n) (int_unsigned cs)
          else if c = CHR ''+'' then map_option int (int_unsigned cs)
          else map_option int (int_unsigned t))"

text \<open>
  The part of \<open>__init__\<close> that sets \<open>self.sleep\<close> and \<open>self.sleep_type\<close> from
  \<open>settings['sleep_time']\<close>. Both \<open>int\<close> calls and the missing key raise ValueError.
  In the first branch the string holds a letter, so it is not empty and
  \<open>[:-1]\<close>, \<open>[-1]\<close> are \<^const>\<open>butlast\<close> and \<^const>\<open>last\<close>.
\<close>

definition parse_sleep_time :: "string \<Rightarrow> py_error + (int \<times> sleep_type)" where
  "parse_sleep_time sleep_time =
     (if list_ex isalpha sleep_time then
        (case py_int (butlast sleep_time) of
           None \<Rightarrow> Inl ValueError
         | Some sleep \<Rightarrow>
             (case relation (last sleep_time) of
                Some t \<Rightarrow> Inr (sleep, t)
              | None \<Rightarrow> Inl ValueError))
      else
        (case py_int sleep_time of
           None \<Rightarrow> Inl ValueError
         | Some sleep \<Rightarrow> Inr (sleep, Minutes)))"

text \<open>
  Modelled from the spec: the \<open>pause\<close> package, whose function named by
  \<open>sleep_type\<close> the loop of \<open>run\<close> calls with \<open>sleep\<close>, is not among the sources.
  Its functions \<open>seconds\<close>, \<open>minutes\<close>, \<open>hours\<close>, \<open>days\<close>, \<open>weeks\<close> wait for that
  many units; \<open>sleep_seconds\<close> is the length of that wait in seconds.
\<close>

definition unit_seconds :: "sleep_type \<Rightarrow> int" where
  "unit_seconds t =
     (case t of Seconds \<Rightarrow> 1 | Minutes \<Rightarrow> 60 | Hours \<Rightarrow> 3600 | Days \<Rightarrow> 86400 | Weeks \<Rightarrow> 604800)"

definition sleep_seconds :: "int \<times> sleep_type \<Rightarrow> int" where
  "sleep_seconds p = fst p * unit_seconds (snd p)"

section \<open>Services, settings and the collaborators\<close>

text \<open>
  What the controller reads of a service object: \<open>service.id\<close>, \<open>service.short_id\<close>,
  \<open>service.name\<close>, the image reference
  \<open>attrs['Spec']['TaskTemplate']['ContainerSpec']['Image']\<close> and the update state
  \<open>attrs['UpdateStatus']['State']\<close>, which is \<open>None\<close> when \<open>UpdateStatus\<close> is missing
  or empty or has no \<open>State\<close>.
\<close>

record service =
  svc_id :: string
  svc_short_id :: string
  svc_name :: string
  svc_image :: string
  svc_update_state :: "string option"

record settings =
  filters :: "(string \<times> string) option"
  blacklist :: "string list"
  sleep_time :: string
  notify_include_new_image :: bool
  notify_include_old_image :: bool

text \<open>
  Modelled from the spec: \<open>notifiers/core.py\<close> is not among the sources. One call of
  \<open>notifiers.notify\<close> passes the same payload to every registered channel; the model
  records the call with its keyword arguments.
\<close>

record notification =
  service_name :: string
  service_short_id :: string
  old_image :: "string option"
  new_image :: "string option"

type_synonym labels = "string \<times> string \<times> string"

text \<open>The calls the controller makes on its collaborators, in the order it makes them.\<close>

datatype event =
    ServicesList "(string \<times> string) option"
  | GetRegistryData string
  | ServiceUpdate service string
  | ServiceReload service
  | PauseSeconds int
  | CounterInc labels nat
  | Notify notification
  | Wait int sleep_type

datatype registry_reply = RegistryData string | APIError

datatype reload_reply = Reloaded service | NotFound

text \<open>
  The docker client, over a state \<open>'w\<close> of the platform and the registry that every
  call may change:
  \<^item> \<open>services_list\<close> is \<open>docker.services.list(filters=...)\<close>;
  \<^item> \<open>get_registry_data\<close> is \<open>docker.images.get_registry_data(image)\<close>, replying with
    the digest \<open>attrs['Descriptor']['digest']\<close> or raising \<open>docker.errors.APIError\<close>;
  \<^item> \<open>service_update\<close> is \<open>service.update(image=..., force_update=True)\<close>, \<open>False\<close>
    when it raises \<open>docker.errors.APIError\<close>;
  \<^item> \<open>service_reload\<close> is \<open>service.reload()\<close>, which replaces the attributes of the
    service object or raises \<open>docker.errors.NotFound\<close>;
  \<^item> \<open>service_found\<close> tells whether the statement of the priming loop, which reads
    \<open>service.id\<close> and \<open>service.short_id\<close> under \<open>except docker.errors.NotFound\<close>, runs
    without that exception.
\<close>

record 'w platform =
  services_list :: "(string \<times> string) option \<Rightarrow> 'w \<Rightarrow> service list \<times> 'w"
  get_registry_data :: "string \<Rightarrow> 'w \<Rightarrow> registry_reply \<times> 'w"
  service_update :: "service \<Rightarrow> string \<Rightarrow> 'w \<Rightarrow> bool \<times> 'w"
  service_reload :: "service \<Rightarrow> 'w \<Rightarrow> reload_reply \<times> 'w"
  service_found :: "service \<Rightarrow> 'w \<Rightarrow> bool \<times> 'w"

text \<open>
  The state a cycle runs in: the platform, the series of the update counter and the
  calls made so far.
\<close>

record 'w state =
  world :: 'w
  counters :: "labels \<rightharpoonup> nat"
  trace :: "event list"

definition emit :: "event \<Rightarrow> 'w state \<Rightarrow> 'w state" where
  "emit e st = st\<lparr>trace := trace st @ [e]\<rparr>"

text \<open>
  Modelled from the spec: the counter \<open>PROM_SVC_UPDATE_COUNTER\<close> is declared in
  \<open>lib/prometheus.py\<close>, which is not among the sources. \<open>labels(...)\<close> creates the
  series at 0 when it does not exist, and \<open>inc(n)\<close> adds \<open>n\<close> to it.
\<close>

definition counter_inc :: "labels \<Rightarrow> nat \<Rightarrow> 'w state \<Rightarrow> 'w state" where
  "counter_inc l n st =
     emit (CounterInc l n)
       (st\<lparr>counters := (counters st)(l \<mapsto> (case counters st l of None \<Rightarrow> 0 | Some v \<Rightarrow> v) + n)\<rparr>)"

section \<open>Service filter (\<open>Cioban.get_services\<close>)\<close>

text \<open>
  \<open>list.remove(x)\<close> deletes the first element equal to \<open>x\<close>; two service objects
  of the docker client are equal when their ids are.
\<close>

fun list_remove :: "service \<Rightarrow> service list \<Rightarrow> service list" where
  "list_remove x [] = []"
| "list_remove x (y # ys) = (if svc_id y = svc_id x then ys else y # list_remove x ys)"

lemma length_list_remove:
  "\<exists>y \<in> set ys. svc_id y = svc_id x \<Longrightarrow> Suc (length (list_remove x ys)) = length ys"
  by (induction ys) auto

text \<open>
  The inner loop \<open>for service in services\<close> for one blacklist entry. The list is mutated
  while it is iterated: the iterator holds the index \<open>i\<close> of the next element and stops
  when \<open>i\<close> reaches the current length.
\<close>

function blacklist_scan :: "string \<Rightarrow> service list \<Rightarrow> nat \<Rightarrow> service list" where
  "blacklist_scan blacklist_service services i =
     (if i < length services then
        (if svc_name (services ! i) = blacklist_service
         then blacklist_scan blacklist_service (list_remove (services ! i) services) (Suc i)
         else blacklist_scan blacklist_service services (Suc i))
      else services)"
  by pat_completeness auto
termination
proof (relation "measure (\<lambda>(b, services, i). length services - i)")
  show "wf (measure (\<lambda>(b, services, i). length services - i))"
    by simp
next
  fix blacklist_service :: string and services :: "service list" and i :: nat
  assume less: "i < length services"
  then have "services ! i \<in> set services"
    by simp
  then have "\<exists>y \<in> set services. svc_id y = svc_id (services ! i)"
    by blast
  then have "Suc (length (list_remove (services ! i) services)) = length services"
    by (rule length_list_remove)
  then have "length (list_remove (services ! i) services) - Suc i < length services - i"
    using less by linarith
  then show "((blacklist_service, list_remove (services ! i) services, Suc i),
         (blacklist_service, services, i)) \<in> measure (\<lambda>(b, services, i). length services - i)"
    by simp
next
  fix blacklist_service :: string and services :: "service list" and i :: nat
  assume less: "i < length services"
  then show "((blacklist_service, services, Suc i),
         (blacklist_service, services, i)) \<in> measure (\<lambda>(b, services, i). length services - i)"
    by simp
qed

declare blacklist_scan.simps [simp del]

text \<open>The outer loop \<open>for blacklist_service in self.settings['blacklist']\<close>.\<close>

fun apply_blacklist :: "string list \<Rightarrow> service list \<Rightarrow> service list" where
  "apply_blacklist [] services = services"
| "apply_blacklist (blacklist_service # bs) services =
     apply_blacklist bs (blacklist_scan blacklist_service services 0)"

definition get_services :: "'w platform \<Rightarrow> settings \<Rightarrow> 'w state \<Rightarrow> service list \<times> 'w state" where
  "get_services p cfg st =
     (case services_list p (filters cfg) (world st) of
        (services, w) \<Rightarrow>
          (apply_blacklist (blacklist cfg) services,
           emit (ServicesList (filters cfg)) (st\<lparr>world := w\<rparr>)))"

section \<open>Digest resolver (\<open>Cioban.__get_updated_image\<close>)\<close>

text \<open>
  The Python function returns \<open>None\<close> (the query raised), \<open>False\<close> (the digests are
  equal) or the string made of the image, an \<open>@\<close> and the digest; its caller only
  tests the result for truth. The string holds an \<open>@\<close>, so it is never empty:
  \<open>Some\<close> is the true result, \<open>None\<close> the two false ones. \<open>image_sha\<close> is \<open>None\<close>
  or a string, and \<open>None == digest\<close> is false.
\<close>

definition get_updated_image ::
  "'w platform \<Rightarrow> string \<Rightarrow> string option \<Rightarrow> 'w state \<Rightarrow> string option \<times> 'w state" where
  "get_updated_image p img image_sha st =
     (case get_registry_data p img (world st) of
        (registry_data, w) \<Rightarrow>
          (let st' = emit (GetRegistryData img) (st\<lparr>world := w\<rparr>) in
           case registry_data of
             APIError \<Rightarrow> (None, st')
           | RegistryData digest \<Rightarrow>
               if image_sha = Some digest then (None, st')
               else (Some (img @ ''@'' @ digest), st')))"

section \<open>Update executor (\<open>Cioban.__update_image\<close> and the wait in \<open>Cioban._run\<close>)\<close>

definition update_image ::
  "'w platform \<Rightarrow> service \<Rightarrow> string \<Rightarrow> 'w state \<Rightarrow> bool \<times> 'w state" where
  "update_image p service upd st =
     (case service_update p service upd (world st) of
        (service_updated, w) \<Rightarrow> (service_updated, emit (ServiceUpdate service upd) (st\<lparr>world := w\<rparr>)))"

text \<open>
  The loop \<open>while updating\<close>. It has no bound, so it is a partial function and
  \<open>None\<close> is the run that never leaves it. It returns the service object with the
  attributes of the last successful reload, the variable \<open>services\<close>, which the
  \<open>NotFound\<close> handler rebinds, and the state. Every way out of the loop has set
  \<open>service_updated\<close> to \<open>True\<close>.
\<close>

partial_function (option) wait_updating ::
  "'w platform \<Rightarrow> settings \<Rightarrow> service \<Rightarrow> service list \<Rightarrow> 'w state \<Rightarrow>
   (service \<times> service list \<times> 'w state) option" where
  "wait_updating p cfg service services st =
     (case service_reload p service (world st) of
        (reply, w) \<Rightarrow>
          (case reply of
             NotFound \<Rightarrow>
               (case get_services p cfg (emit (ServiceReload service) (st\<lparr>world := w\<rparr>)) of
                  (services', st') \<Rightarrow> Some (service, services', st'))
           | Reloaded service' \<Rightarrow>
               if svc_update_state service' = Some ''updating''
               then wait_updating p cfg service' services
                      (emit (PauseSeconds 1) (emit (ServiceReload service) (st\<lparr>world := w\<rparr>)))
               else Some (service', services, emit (ServiceReload service) (st\<lparr>world := w\<rparr>))))"

section \<open>Reconciliation controller (\<open>Cioban._run\<close>)\<close>

text \<open>
  The block under the last \<open>if service_updated\<close>: the counter of the service goes up
  by one and the notifiers are called once. \<open>service_name\<close> and \<open>image_with_digest\<close>
  were read before the update; the id, the short id and the new image are read from
  the service object as it is now.
\<close>

definition notify_updated ::
  "settings \<Rightarrow> string \<Rightarrow> string \<Rightarrow> service \<Rightarrow> 'w state \<Rightarrow> 'w state" where
  "notify_updated cfg name image_with_digest service st =
     emit (Notify \<lparr>service_name = name,
                   service_short_id = svc_short_id service,
                   old_image = (if notify_include_old_image cfg then Some image_with_digest else None),
                   new_image = (if notify_include_new_image cfg then Some (svc_image service) else None)\<rparr>)
       (counter_inc (name, svc_id service, svc_short_id service) 1 st)"

text \<open>
  The body of the second loop of \<open>_run\<close> for one service. The result is \<open>None\<close> when
  the wait never ends, \<open>Inl\<close> when an exception leaves \<open>_run\<close>, and else the
  variable \<open>services\<close> and the state after the body.
\<close>

definition reconcile_service ::
  "'w platform \<Rightarrow> settings \<Rightarrow> service \<Rightarrow> service list \<Rightarrow> 'w state \<Rightarrow>
   (py_error + service list \<times> 'w state) option" where
  "reconcile_service p cfg service services st =
     (case get_image_parts (svc_image service) of
        Inl e \<Rightarrow> Some (Inl e)
      | Inr (img, image_sha) \<Rightarrow>
          (case get_updated_image p img image_sha st of
             (upd, st1) \<Rightarrow>
               (case (case upd of None \<Rightarrow> (False, st1) | Some u \<Rightarrow> update_image p service u st1) of
                  (service_updated, st2) \<Rightarrow>
                    (case (if service_updated then wait_updating p cfg service services st2
                           else Some (service, services, st2)) of
                       None \<Rightarrow> None
                     | Some (service', services', st3) \<Rightarrow>
                         Some (Inr (services',
                           if service_updated
                           then notify_updated cfg (svc_name service) (svc_image service) service' st3
                           else st3))))))"

text \<open>
  The loop \<open>for service in services\<close> of the reconciliation pass. The first list is what
  the iterator still has to yield; it belongs to the list object the loop was started
  on. The second is the variable \<open>services\<close>, which the body may rebind.
\<close>

fun reconcile_loop ::
  "'w platform \<Rightarrow> settings \<Rightarrow> service list \<Rightarrow> service list \<Rightarrow> 'w state \<Rightarrow>
   (py_error + service list \<times> 'w state) option" where
  "reconcile_loop p cfg [] services st = Some (Inr (services, st))"
| "reconcile_loop p cfg (service # rest) services st =
     (case reconcile_service p cfg service services st of
        None \<Rightarrow> None
      | Some (Inl e) \<Rightarrow> Some (Inl e)
      | Some (Inr (services', st')) \<Rightarrow> reconcile_loop p cfg rest services' st')"

text \<open>The priming loop, with the same two lists.\<close>

fun prime_loop ::
  "'w platform \<Rightarrow> settings \<Rightarrow> service list \<Rightarrow> service list \<Rightarrow> 'w state \<Rightarrow>
   service list \<times> 'w state" where
  "prime_loop p cfg [] services st = (services, st)"
| "prime_loop p cfg (service # rest) services st =
     (case service_found p service (world st) of
        (found, w) \<Rightarrow>
          if found
          then prime_loop p cfg rest services
                 (counter_inc (svc_name service, svc_id service, svc_short_id service) 0
                    (st\<lparr>world := w\<rparr>))
          else (case get_services p cfg (st\<lparr>world := w\<rparr>) of
                  (services', st') \<Rightarrow> prime_loop p cfg rest services' st'))"

text \<open>\<open>_run\<close>: one cycle.\<close>

definition run_cycle ::
  "'w platform \<Rightarrow> settings \<Rightarrow> 'w state \<Rightarrow> (py_error + service list \<times> 'w state) option" where
  "run_cycle p cfg st =
     (case get_services p cfg st of
        (services, st1) \<Rightarrow>
          (case prime_loop p cfg services services st1 of
             (services2, st2) \<Rightarrow> reconcile_loop p cfg services2 services2 st2))"

section \<open>Scheduler loop (\<open>Cioban.__init__\<close> and \<open>Cioban.run\<close>)\<close>

text \<open>
  The attributes of a \<open>Cioban\<close> object that \<open>run\<close> reads: \<open>self.settings\<close>,
  \<open>self.sleep\<close> and \<open>self.sleep_type\<close>.
\<close>

record cioban =
  self_settings :: settings
  self_sleep :: int
  self_sleep_type :: sleep_type

definition init :: "settings \<Rightarrow> py_error + cioban" where
  "init cfg =
     (case parse_sleep_time (sleep_time cfg) of
        Inl e \<Rightarrow> Inl e
      | Inr (n, t) \<Rightarrow> Inr \<lparr>self_settings = cfg, self_sleep = n, self_sleep_type = t\<rparr>)"

text \<open>
  \<open>run\<close> loops for ever; \<open>run n\<close> is its first \<open>n\<close> passes. An exception that leaves
  \<open>_run\<close> leaves \<open>run\<close> too.
\<close>

fun run :: "'w platform \<Rightarrow> cioban \<Rightarrow> nat \<Rightarrow> 'w state \<Rightarrow> (py_error + 'w state) option" where
  "run p c 0 st = Some (Inr st)"
| "run p c (Suc n) st =
     (case run_cycle p (self_settings c) st of
        None \<Rightarrow> None
      | Some (Inl e) \<Rightarrow> Some (Inl e)
      | Some (Inr (services, st')) \<Rightarrow>
          run p c n (emit (Wait (self_sleep c) (self_sleep_type c)) st'))"

text \<open>The last two lines of \<open>__main__\<close>: \<open>c = cioban.Cioban(**options)\<close>, \<open>c.run()\<close>.\<close>

definition main :: "'w platform \<Rightarrow> settings \<Rightarrow> nat \<Rightarrow> 'w state \<Rightarrow> (py_error + 'w state) option" where
  "main p cfg n st = (case init cfg of Inl e \<Rightarrow> Some (Inl e) | Inr c \<Rightarrow> run p c n st)"

section \<open>Observing a trace\<close>

fun update_calls :: "event list \<Rightarrow> (service \<times> string) list" where
  "update_calls [] = []"
| "update_calls (ServiceUpdate service upd # es) = (service, upd) # update_calls es"
| "update_calls (e # es) = update_calls es"

fun notifications :: "event list \<Rightarrow> notification list" where
  "notifications [] = []"
| "notifications (Notify n # es) = n # notifications es"
| "notifications (e # es) = notifications es"

fun counter_calls :: "event list \<Rightarrow> (labels \<times> nat) list" where
  "counter_calls [] = []"
| "counter_calls (CounterInc l n # es) = (l, n) # counter_calls es"
| "counter_calls (e # es) = counter_calls es"

fun reload_calls :: "event list \<Rightarrow> service list" where
  "reload_calls [] = []"
| "reload_calls (ServiceReload service # es) = service # reload_calls es"
| "reload_calls (e # es) = reload_calls es"

fun registry_calls :: "event list \<Rightarrow> string list" where
  "registry_calls [] = []"
| "registry_calls (GetRegistryData img # es) = img # registry_calls es"
| "registry_calls (e # es) = registry_calls es"

fun list_calls :: "event list \<Rightarrow> nat" where
  "list_calls [] = 0"
| "list_calls (ServicesList f # es) = Suc (list_calls es)"
| "list_calls (e # es) = list_calls es"

text \<open>
  The service name an update call, a notification or a counter call is made with, and
  the names a trace makes such calls with, in order.
\<close>

fun event_service_name :: "event \<Rightarrow> string option" where
  "event_service_name (ServiceUpdate service upd) = Some (svc_name service)"
| "event_service_name (Notify n) = Some (service_name n)"
| "event_service_name (CounterInc l n) = Some (fst l)"
| "event_service_name e = None"

fun called_names :: "event list \<Rightarrow> string list" where
  "called_names [] = []"
| "called_names (e # es) =
     (case event_service_name e of None \<Rightarrow> called_names es | Some n \<Rightarrow> n # called_names es)"

text \<open>
  \<open>spares bl t t'\<close>: the trace \<open>t'\<close> is \<open>t\<close> followed by calls none of which is an update
  call, a notification or a counter call for a name of \<open>bl\<close>.
\<close>

definition spares :: "string list \<Rightarrow> event list \<Rightarrow> event list \<Rightarrow> bool" where
  "spares bl t t' =
     (take (length t) t' = t \<and> list_all (\<lambda>n. n \<notin> set bl) (called_names (drop (length t) t')))"

text \<open>The value of a counter series; a series that does not exist yet counts as 0.\<close>

definition counter_value :: "'w state \<Rightarrow> labels \<Rightarrow> nat" where
  "counter_value st l = (case counters st l of None \<Rightarrow> 0 | Some v \<Rightarrow> v)"

text \<open>
  \<open>settles p service w n\<close>: from the platform state \<open>w\<close>, the reloads of \<open>service\<close>
  report \<open>updating\<close> exactly \<open>n\<close> times, and the reload after them reports another
  state or that the service is gone.
\<close>

fun settles :: "'w platform \<Rightarrow> service \<Rightarrow> 'w \<Rightarrow> nat \<Rightarrow> bool" where
  "settles p service w 0 =
     (case service_reload p service w of
        (NotFound, w') \<Rightarrow> True
      | (Reloaded service', w') \<Rightarrow> svc_update_state service' \<noteq> Some ''updating'')"
| "settles p service w (Suc n) =
     (case service_reload p service w of
        (NotFound, w') \<Rightarrow> False
      | (Reloaded service', w') \<Rightarrow>
          svc_update_state service' = Some ''updating'' \<and> settles p service' w' n)"

section \<open>A scripted platform\<close>

text \<open>
  A platform whose replies are given in advance: the \<open>k\<close>-th listing, the reply to the
  \<open>k\<close>-th registry query, whether an update of a service is accepted, the reply to the
  \<open>k\<close>-th reload, and whether a service is found in the priming pass. Its state
  counts the listings, the queries and the reloads made so far.
\<close>

record script_world =
  listed :: nat
  queried :: nat
  reloaded :: nat

definition scripted ::
  "(nat \<Rightarrow> service list) \<Rightarrow> (string \<Rightarrow> nat \<Rightarrow> registry_reply) \<Rightarrow> (service \<Rightarrow> bool) \<Rightarrow>
   (service \<Rightarrow> nat \<Rightarrow> reload_reply) \<Rightarrow> (service \<Rightarrow> bool) \<Rightarrow> script_world platform" where
  "scripted listing registry accepted reload found =
     \<lparr>services_list = (\<lambda>f w. (listing (listed w), w\<lparr>listed := Suc (listed w)\<rparr>)),
      get_registry_data = (\<lambda>img w. (registry img (queried w), w\<lparr>queried := Suc (queried w)\<rparr>)),
      service_update = (\<lambda>service upd w. (accepted service, w)),
      service_reload = (\<lambda>service w. (reload service (reloaded w), w\<lparr>reloaded := Suc (reloaded w)\<rparr>)),
      service_found = (\<lambda>service w. (found service, w))\<rparr>"

definition start_world :: script_world where
  "start_world = \<lparr>listed = 0, queried = 0, reloaded = 0\<rparr>"

definition start_state :: "script_world state" where
  "start_state = \<lparr>world = start_world, counters = Map.empty, trace = []\<rparr>"

definition mk_service :: "string \<Rightarrow> string \<Rightarrow> string \<Rightarrow> service" where
  "mk_service ident name img =
     \<lparr>svc_id = ident, svc_short_id = take 4 ident, svc_name = name, svc_image = img,
      svc_update_state = None\<rparr>"

definition default_settings :: settings where
  "default_settings =
     \<lparr>filters = None, blacklist = [], sleep_time = ''5m'',
      notify_include_new_image = False, notify_include_old_image = False\<rparr>"

text \<open>The services and platforms the properties are evaluated on.\<close>

definition svc_web :: service where
  "svc_web = mk_service ''w1w1w1'' ''web'' ''repo/app@sha256:AAA''"

definition svc_api :: service where
  "svc_api = mk_service ''a1a1a1'' ''api'' ''repo/api@sha256:AAA''"

definition svc_db :: service where
  "svc_db = mk_service ''d1d1d1'' ''db'' ''repo/db@sha256:AAA''"

definition svc_worker :: service where
  "svc_worker = mk_service ''k1k1k1'' ''worker'' ''repo/worker@sha256:AAA''"

definition svc_worker2 :: service where
  "svc_worker2 = mk_service ''k2k2k2'' ''worker'' ''repo/worker@sha256:AAA''"

text \<open>A service as the platform shows it once it runs the image with digest \<open>d\<close>.\<close>

definition rolled :: "string \<Rightarrow> service \<Rightarrow> service" where
  "rolled d service =
     service\<lparr>svc_image := fst (spec_parse_reference (svc_image service)) @ ''@'' @ d,
             svc_update_state := Some ''completed''\<rparr>"

text \<open>
  \<open>api\<close> and \<open>db\<close> are listed first and \<open>web\<close> from the second listing on; the
  registry has a new digest for every repository; \<open>api\<close> is gone when it is reloaded.
\<close>

definition platform_vanish :: "script_world platform" where
  "platform_vanish =
     scripted (\<lambda>k. if k = 0 then [svc_api, svc_db] else [svc_web])
       (\<lambda>img k. RegistryData ''sha256:BBB'')
       (\<lambda>service. True)
       (\<lambda>service k. if svc_name service = ''api'' then NotFound
                     else Reloaded (rolled ''sha256:BBB'' service))
       (\<lambda>service. True)"

text \<open>
  \<open>web\<close> and \<open>api\<close> are listed. The registry does not answer the first query and has
  a new digest from the second on; an update is accepted when \<open>accepted\<close> says so; a
  service reports \<open>updating\<close> for the first \<open>polls\<close> reloads and has converged after
  them.
\<close>

definition platform_rolling :: "(service \<Rightarrow> bool) \<Rightarrow> nat \<Rightarrow> nat \<Rightarrow> script_world platform" where
  "platform_rolling accepted down polls =
     scripted (\<lambda>k. [svc_web, svc_api])
       (\<lambda>img k. if k < down then APIError else RegistryData ''sha256:BBB'')
       accepted
       (\<lambda>service k. if k < polls then Reloaded (service\<lparr>svc_update_state := Some ''updating''\<rparr>)
                     else Reloaded (rolled ''sha256:BBB'' service))
       (\<lambda>service. True)"

text \<open>\<open>web\<close> and \<open>api\<close> are listed and every pinned digest is the registry's.\<close>

definition platform_converged :: "script_world platform" where
  "platform_converged =
     scripted (\<lambda>k. [svc_web, svc_api])
       (\<lambda>img k. RegistryData ''sha256:AAA'')
       (\<lambda>service. True)
       (\<lambda>service k. Reloaded service)
       (\<lambda>service. True)"


section \<open>Evaluation\<close>

text \<open>The definitions that \<open>simp\<close> unfolds to run the model on a scripted platform.\<close>

lemmas fixture_eval =
  scripted_def start_state_def start_world_def mk_service_def default_settings_def
  svc_web_def svc_api_def svc_db_def svc_worker_def svc_worker2_def rolled_def
  platform_vanish_def platform_rolling_def
  platform_converged_def spec_parse_reference_def get_image_parts_def split1_def py_index_def
  get_updated_image_def update_image_def emit_def counter_inc_def notify_updated_def
  reconcile_service_def get_services_def run_cycle_def counter_value_def Let_def

section \<open>The parser\<close>

lemma split1_no_sep: "sep \<notin> set s \<Longrightarrow> split1 sep s = [s]"
proof -
  assume "sep \<notin> set s"
  then have d: "dropWhile (\<lambda>c. c \<noteq> sep) s = []"
    by auto
  show ?thesis
    unfolding split1_def d by simp
qed

lemma split1_at_first: "sep \<notin> set l \<Longrightarrow> split1 sep (l @ sep # r) = [l, r]"
proof -
  assume no: "sep \<notin> set l"
  then have d: "dropWhile (\<lambda>c. c \<noteq> sep) (l @ sep # r) = sep # r"
    by (auto simp: dropWhile_append3)
  from no have t: "takeWhile (\<lambda>c. c \<noteq> sep) (l @ sep # r) = l"
    by (auto simp: takeWhile_tail)
  show ?thesis
    unfolding split1_def d t by simp
qed

lemma get_image_parts_no_at:
  "CHR ''@'' \<notin> set s \<Longrightarrow> get_image_parts s = Inr (s, None)"
  by (simp add: get_image_parts_def split1_no_sep py_index_def)

lemma get_image_parts_at:
  "CHR ''@'' \<notin> set l \<Longrightarrow> get_image_parts (l @ CHR ''@'' # r) = Inr (l, Some r)"
  by (simp add: get_image_parts_def split1_at_first py_index_def)

lemma get_image_parts_repository:
  "get_image_parts s = Inr (img, sha) \<Longrightarrow> CHR ''@'' \<notin> set img"
proof (cases "CHR ''@'' \<in> set s")
  case False
  assume "get_image_parts s = Inr (img, sha)"
  with False show ?thesis by (simp add: get_image_parts_no_at)
next
  case True
  assume g: "get_image_parts s = Inr (img, sha)"
  from True obtain l r where s: "s = l @ CHR ''@'' # r" and l: "CHR ''@'' \<notin> set l"
    by (meson split_list_first)
  with g show ?thesis by (simp add: get_image_parts_at)
qed

lemma get_image_parts_fst:
  assumes "get_image_parts s = Inr (img, sha)"
  shows "img = fst (spec_parse_reference s)"
proof (cases "CHR ''@'' \<in> set s")
  case False
  with assms show ?thesis
    by (simp add: get_image_parts_no_at spec_parse_reference_def)
next
  case True
  then obtain l r where s: "s = l @ CHR ''@'' # r" and l: "CHR ''@'' \<notin> set l"
    by (meson split_list_first)
  from l have t: "takeWhile (\<lambda>c. c \<noteq> CHR ''@'') (l @ CHR ''@'' # r) = l"
    by (auto simp: takeWhile_tail)
  from assms s l have "img = l"
    by (simp add: get_image_parts_at)
  with s t show ?thesis
    by (simp add: spec_parse_reference_def)
qed

text \<open>
  Claim C9. For every raw reference string the parser returns, without raising, what
  the specification describes: the string is split at its first \<open>@\<close>, the left part
  is the repository and the right part the digest; a string with no \<open>@\<close> is the
  repository itself, with no digest.
\<close>

theorem get_image_parts_refines_spec:
  "get_image_parts s = Inr (spec_parse_reference s) \<and>
   (CHR ''@'' \<notin> set s \<longrightarrow> get_image_parts s = Inr (s, None)) \<and>
   (CHR ''@'' \<notin> set l \<longrightarrow> get_image_parts (l @ CHR ''@'' # r) = Inr (l, Some r))"
proof (intro conjI impI)
  show "get_image_parts s = Inr (spec_parse_reference s)"
  proof (cases "CHR ''@'' \<in> set s")
    case False
    then show ?thesis
      by (simp add: get_image_parts_no_at spec_parse_reference_def)
  next
    case True
    then obtain a b where s: "s = a @ CHR ''@'' # b" and a: "CHR ''@'' \<notin> set a"
      by (meson split_list_first)
    from a have d: "dropWhile (\<lambda>c. c \<noteq> CHR ''@'') (a @ CHR ''@'' # b) = CHR ''@'' # b"
      by (auto simp: dropWhile_append3)
    from a have t: "takeWhile (\<lambda>c. c \<noteq> CHR ''@'') (a @ CHR ''@'' # b) = a"
      by (auto simp: takeWhile_tail)
    have "spec_parse_reference s = (a, Some b)"
      unfolding spec_parse_reference_def s d t by simp
    with a s show ?thesis
      by (simp add: get_image_parts_at)
  qed
next
  assume "CHR ''@'' \<notin> set s"
  then show "get_image_parts s = Inr (s, None)"
    by (rule get_image_parts_no_at)
next
  assume "CHR ''@'' \<notin> set l"
  then show "get_image_parts (l @ CHR ''@'' # r) = Inr (l, Some r)"
    by (rule get_image_parts_at)
qed

theorem get_image_parts_refines_spec_witness:
  "CHR ''@'' \<notin> set ''repo/app'' \<and>
   get_image_parts ''repo/app'' = Inr (''repo/app'', None) \<and>
   get_image_parts (''repo/app'' @ CHR ''@'' # ''sha256:AAA'') =
     Inr (''repo/app'', Some ''sha256:AAA'') \<and>
   get_image_parts ''a@b@c'' = Inr (''a'', Some ''b@c'') \<and>
   get_image_parts '''' = Inr ('''', None) \<and>
   get_image_parts ''@'' = Inr ('''', Some '''')"
  using get_image_parts_refines_spec [of "''repo/app''" "''repo/app''" "''sha256:AAA''"]
    get_image_parts_refines_spec [of "''a@b@c''"] get_image_parts_refines_spec [of "''''"]
    get_image_parts_refines_spec [of "''@''"]
  by (simp add: spec_parse_reference_def)

lemma get_updated_image_Some:
  "fst (get_updated_image p img sha st) = Some u \<Longrightarrow>
   \<exists>d. fst (get_registry_data p img (world st)) = RegistryData d \<and> u = img @ ''@'' @ d \<and> sha \<noteq> Some d"
  by (auto simp: get_updated_image_def Let_def split: prod.splits registry_reply.splits if_splits)

text \<open>
  Claim C10. Parsing the reference composed of a repository without \<open>@\<close>, an \<open>@\<close>
  and a digest gives back that repository and that digest; and every update reference
  the resolver builds from a parsed reference parses to the parsed repository and the
  digest the registry returned.
\<close>

theorem compose_parse_roundtrip:
  "(CHR ''@'' \<notin> set repository \<longrightarrow>
      get_image_parts (repository @ ''@'' @ digest) = Inr (repository, Some digest)) \<and>
   (get_image_parts s = Inr (img, sha) \<and> fst (get_updated_image p img sha st) = Some u \<longrightarrow>
      (\<exists>d. fst (get_registry_data p img (world st)) = RegistryData d \<and>
           u = img @ ''@'' @ d \<and> get_image_parts u = Inr (img, Some d)))"
proof (intro conjI impI)
  assume "CHR ''@'' \<notin> set repository"
  then show "get_image_parts (repository @ ''@'' @ digest) = Inr (repository, Some digest)"
    using get_image_parts_at [of repository digest] by simp
next
  assume a: "get_image_parts s = Inr (img, sha) \<and> fst (get_updated_image p img sha st) = Some u"
  then have no: "CHR ''@'' \<notin> set img"
    using get_image_parts_repository by blast
  from a obtain d where d: "fst (get_registry_data p img (world st)) = RegistryData d"
    and u: "u = img @ ''@'' @ d"
    using get_updated_image_Some by blast
  from no have "get_image_parts (img @ CHR ''@'' # d) = Inr (img, Some d)"
    by (rule get_image_parts_at)
  with d u show "\<exists>d. fst (get_registry_data p img (world st)) = RegistryData d \<and>
           u = img @ ''@'' @ d \<and> get_image_parts u = Inr (img, Some d)"
    by auto
qed

theorem compose_parse_roundtrip_witness:
  "CHR ''@'' \<notin> set ''repo/app'' \<and>
   get_image_parts (''repo/app'' @ ''@'' @ ''sha256:BBB'') = Inr (''repo/app'', Some ''sha256:BBB'') \<and>
   get_image_parts (svc_image svc_web) = Inr (''repo/app'', Some ''sha256:AAA'') \<and>
   fst (get_updated_image platform_vanish ''repo/app'' (Some ''sha256:AAA'') start_state) =
     Some ''repo/app@sha256:BBB'' \<and>
   fst (get_registry_data platform_vanish ''repo/app'' (world start_state)) =
     RegistryData ''sha256:BBB'' \<and>
   get_image_parts ''repo/app@sha256:BBB'' = Inr (''repo/app'', Some ''sha256:BBB'')"
  using compose_parse_roundtrip [of "''repo/app''" "''sha256:BBB''" "svc_image svc_web"
      "''repo/app''" "Some ''sha256:AAA''" platform_vanish start_state "''repo/app@sha256:BBB''"]
  by (simp add: fixture_eval)

section \<open>Traces, the resolver and the wait\<close>

lemma update_calls_append: "update_calls (xs @ ys) = update_calls xs @ update_calls ys"
  by (induction xs rule: update_calls.induct) simp_all

lemma notifications_append: "notifications (xs @ ys) = notifications xs @ notifications ys"
  by (induction xs rule: notifications.induct) simp_all

lemma counter_calls_append: "counter_calls (xs @ ys) = counter_calls xs @ counter_calls ys"
  by (induction xs rule: counter_calls.induct) simp_all

lemma reload_calls_append: "reload_calls (xs @ ys) = reload_calls xs @ reload_calls ys"
  by (induction xs rule: reload_calls.induct) simp_all

lemma registry_calls_append: "registry_calls (xs @ ys) = registry_calls xs @ registry_calls ys"
  by (induction xs rule: registry_calls.induct) simp_all

lemma list_calls_append: "list_calls (xs @ ys) = list_calls xs + list_calls ys"
  by (induction xs rule: list_calls.induct) simp_all

lemmas observe_append =
  update_calls_append notifications_append counter_calls_append reload_calls_append
  registry_calls_append list_calls_append

lemma emit_fields:
  "trace (emit e st) = trace st @ [e]"
  "counters (emit e st) = counters st"
  "world (emit e st) = world st"
  by (simp_all add: emit_def)

lemma get_services_fields:
  assumes "get_services p cfg st = (services, st')"
  shows "counters st' = counters st"
    and "trace st' = trace st @ [ServicesList (filters cfg)]"
    and "world st' = snd (services_list p (filters cfg) (world st))"
    and "services = apply_blacklist (blacklist cfg) (fst (services_list p (filters cfg) (world st)))"
  using assms by (auto simp: get_services_def emit_fields split: prod.splits)

lemma wait_updating_quiet_aux:
  assumes "wait_updating p cfg service services st = Some r"
  shows "counters (snd (snd r)) = counters st \<and>
         update_calls (trace (snd (snd r))) = update_calls (trace st) \<and>
         notifications (trace (snd (snd r))) = notifications (trace st) \<and>
         counter_calls (trace (snd (snd r))) = counter_calls (trace st) \<and>
         registry_calls (trace (snd (snd r))) = registry_calls (trace st)"
proof -
  let ?Q = "\<lambda>(st :: 'a state) (r :: service \<times> service list \<times> 'a state).
         counters (snd (snd r)) = counters st \<and>
         update_calls (trace (snd (snd r))) = update_calls (trace st) \<and>
         notifications (trace (snd (snd r))) = notifications (trace st) \<and>
         counter_calls (trace (snd (snd r))) = counter_calls (trace st) \<and>
         registry_calls (trace (snd (snd r))) = registry_calls (trace st)"
  have "?Q st r"
  proof (rule wait_updating.raw_induct [where P = "\<lambda>p cfg service services. ?Q", OF _ assms])
    fix wait :: "'a platform \<Rightarrow> settings \<Rightarrow> service \<Rightarrow> service list \<Rightarrow> 'a state \<Rightarrow>
                 (service \<times> service list \<times> 'a state) option"
      and p cfg service services st r
    assume IH: "\<And>p cfg service services st r.
                  wait p cfg service services st = Some r \<Longrightarrow> ?Q st r"
      and step: "(case service_reload p service (world st) of
        (reply, w) \<Rightarrow>
          (case reply of
             NotFound \<Rightarrow>
               (case get_services p cfg (emit (ServiceReload service) (st\<lparr>world := w\<rparr>)) of
                  (services', st') \<Rightarrow> Some (service, services', st'))
           | Reloaded service' \<Rightarrow>
               if svc_update_state service' = Some ''updating''
               then wait p cfg service' services
                      (emit (PauseSeconds 1) (emit (ServiceReload service) (st\<lparr>world := w\<rparr>)))
               else Some (service', services, emit (ServiceReload service) (st\<lparr>world := w\<rparr>)))) =
        Some r"
    obtain reply w where rw: "service_reload p service (world st) = (reply, w)"
      by (cases "service_reload p service (world st)")
    show "?Q st r"
    proof (cases reply)
      case NotFound
      obtain svcs st1 where g:
        "get_services p cfg (emit (ServiceReload service) (st\<lparr>world := w\<rparr>)) = (svcs, st1)"
        by (cases "get_services p cfg (emit (ServiceReload service) (st\<lparr>world := w\<rparr>))")
      from step rw NotFound g have r: "r = (service, svcs, st1)"
        by simp
      from get_services_fields(1,2) [OF g] show ?thesis
        by (simp add: r emit_fields observe_append)
    next
      case (Reloaded s')
      show ?thesis
      proof (cases "svc_update_state s' = Some ''updating''")
        case True
        with step rw Reloaded
        have "wait p cfg s' services
                (emit (PauseSeconds 1) (emit (ServiceReload service) (st\<lparr>world := w\<rparr>))) = Some r"
          by simp
        from IH [OF this] show ?thesis
          by (simp add: emit_fields observe_append)
      next
        case False
        with step rw Reloaded
        have "r = (s', services, emit (ServiceReload service) (st\<lparr>world := w\<rparr>))"
          by auto
        then show ?thesis
          by (simp add: emit_fields observe_append)
      qed
    qed
  qed
  then show ?thesis by simp
qed

lemma wait_updating_quiet:
  assumes "wait_updating p cfg service services st = Some (service', services', st')"
  shows "counters st' = counters st"
    and "update_calls (trace st') = update_calls (trace st)"
    and "notifications (trace st') = notifications (trace st)"
    and "counter_calls (trace st') = counter_calls (trace st)"
    and "registry_calls (trace st') = registry_calls (trace st)"
  using wait_updating_quiet_aux [OF assms] by simp_all

lemma wait_updating_settles:
  "settles p service (world st) n \<Longrightarrow>
   \<exists>service' services' st'.
     wait_updating p cfg service services st = Some (service', services', st') \<and>
     length (reload_calls (trace st')) = length (reload_calls (trace st)) + Suc n"
proof (induction n arbitrary: service st)
  case 0
  obtain reply w where rw: "service_reload p service (world st) = (reply, w)"
    by (cases "service_reload p service (world st)")
  show ?case
  proof (cases reply)
    case NotFound
    obtain svcs st1 where g:
      "get_services p cfg (emit (ServiceReload service) (st\<lparr>world := w\<rparr>)) = (svcs, st1)"
      by (cases "get_services p cfg (emit (ServiceReload service) (st\<lparr>world := w\<rparr>))")
    have "wait_updating p cfg service services st = Some (service, svcs, st1)"
      by (subst wait_updating.simps) (simp add: rw NotFound g)
    moreover from get_services_fields(2) [OF g]
    have "length (reload_calls (trace st1)) = length (reload_calls (trace st)) + Suc 0"
      by (simp add: emit_fields observe_append)
    ultimately show ?thesis by blast
  next
    case (Reloaded s')
    with 0 rw have ne: "svc_update_state s' \<noteq> Some ''updating''"
      by simp
    have "wait_updating p cfg service services st =
          Some (s', services, emit (ServiceReload service) (st\<lparr>world := w\<rparr>))"
      by (subst wait_updating.simps) (simp add: rw Reloaded ne)
    moreover have "length (reload_calls (trace (emit (ServiceReload service) (st\<lparr>world := w\<rparr>)))) =
        length (reload_calls (trace st)) + Suc 0"
      by (simp add: emit_fields observe_append)
    ultimately show ?thesis by blast
  qed
next
  case (Suc n)
  obtain reply w where rw: "service_reload p service (world st) = (reply, w)"
    by (cases "service_reload p service (world st)")
  from Suc.prems rw obtain s' where rep: "reply = Reloaded s'"
    and upd: "svc_update_state s' = Some ''updating''" and rest: "settles p s' w n"
    by (cases reply) auto
  let ?st1 = "emit (PauseSeconds 1) (emit (ServiceReload service) (st\<lparr>world := w\<rparr>))"
  have "settles p s' (world ?st1) n"
    using rest by (simp add: emit_fields)
  from Suc.IH [OF this] obtain s2 svcs2 st2 where
    w2: "wait_updating p cfg s' services ?st1 = Some (s2, svcs2, st2)" and
    l2: "length (reload_calls (trace st2)) = length (reload_calls (trace ?st1)) + Suc n"
    by blast
  have "wait_updating p cfg service services st = Some (s2, svcs2, st2)"
    by (subst wait_updating.simps) (simp add: rw rep upd w2)
  moreover have "length (reload_calls (trace st2)) = length (reload_calls (trace st)) + Suc (Suc n)"
    using l2 by (simp add: emit_fields observe_append)
  ultimately show ?case by blast
qed

lemma get_updated_image_state:
  "snd (get_updated_image p img sha st) =
   emit (GetRegistryData img) (st\<lparr>world := snd (get_registry_data p img (world st))\<rparr>)"
  by (simp add: get_updated_image_def Let_def split: prod.splits registry_reply.splits)

lemma get_updated_image_fields:
  "counters (snd (get_updated_image p img sha st)) = counters st"
  "trace (snd (get_updated_image p img sha st)) = trace st @ [GetRegistryData img]"
  "world (snd (get_updated_image p img sha st)) = snd (get_registry_data p img (world st))"
  by (simp_all add: get_updated_image_state emit_fields)

lemma get_updated_image_APIError:
  "fst (get_registry_data p img (world st)) = APIError \<Longrightarrow>
   fst (get_updated_image p img sha st) = None"
  by (auto simp: get_updated_image_def Let_def split: prod.splits)

lemma get_updated_image_same:
  "fst (get_registry_data p img (world st)) = RegistryData d \<Longrightarrow>
   fst (get_updated_image p img (Some d) st) = None"
  by (auto simp: get_updated_image_def Let_def split: prod.splits)

lemma get_updated_image_differs:
  "fst (get_registry_data p img (world st)) = RegistryData d \<Longrightarrow> sha \<noteq> Some d \<Longrightarrow>
   fst (get_updated_image p img sha st) = Some (img @ ''@'' @ d)"
  by (auto simp: get_updated_image_def Let_def split: prod.splits)

lemma update_image_fields:
  "fst (update_image p service u st) = fst (service_update p service u (world st))"
  "counters (snd (update_image p service u st)) = counters st"
  "trace (snd (update_image p service u st)) = trace st @ [ServiceUpdate service u]"
  "world (snd (update_image p service u st)) = snd (service_update p service u (world st))"
  by (simp_all add: update_image_def emit_fields split: prod.splits)

lemma reconcile_service_no_plan:
  assumes "get_image_parts (svc_image service) = Inr (img, sha)"
    and "fst (get_updated_image p img sha st) = None"
  shows "reconcile_service p cfg service services st =
         Some (Inr (services, snd (get_updated_image p img sha st)))"
proof -
  obtain st1 where "get_updated_image p img sha st = (None, st1)"
    using assms(2) by (cases "get_updated_image p img sha st") simp
  with assms(1) show ?thesis
    by (simp add: reconcile_service_def)
qed

lemma reconcile_service_failed:
  assumes "get_image_parts (svc_image service) = Inr (img, sha)"
    and "get_updated_image p img sha st = (Some u, st1)"
    and "\<not> fst (service_update p service u (world st1))"
  shows "reconcile_service p cfg service services st =
         Some (Inr (services, snd (update_image p service u st1)))"
proof -
  obtain st2 where "update_image p service u st1 = (False, st2)"
    using assms(3) update_image_fields(1) [of p service u st1]
    by (cases "update_image p service u st1") simp
  with assms(1,2) show ?thesis
    by (simp add: reconcile_service_def)
qed

lemma reconcile_service_updated:
  assumes "get_image_parts (svc_image service) = Inr (img, sha)"
    and "get_updated_image p img sha st = (Some u, st1)"
    and "fst (service_update p service u (world st1))"
    and "wait_updating p cfg service services (snd (update_image p service u st1)) =
         Some (service', services', st3)"
  shows "reconcile_service p cfg service services st =
         Some (Inr (services',
           notify_updated cfg (svc_name service) (svc_image service) service' st3))"
proof -
  obtain st2 where "update_image p service u st1 = (True, st2)"
    using assms(3) update_image_fields(1) [of p service u st1]
    by (cases "update_image p service u st1") simp
  with assms(1,2,4) show ?thesis
    by (simp add: reconcile_service_def)
qed

lemma counter_inc_fields:
  "counters (counter_inc l n st) = (counters st)(l \<mapsto> counter_value st l + n)"
  "trace (counter_inc l n st) = trace st @ [CounterInc l n]"
  "world (counter_inc l n st) = world st"
  by (simp_all add: counter_inc_def emit_def counter_value_def)

lemma notify_updated_fields:
  "counters (notify_updated cfg name iwd service st) =
     (counters st)((name, svc_id service, svc_short_id service) \<mapsto>
        counter_value st (name, svc_id service, svc_short_id service) + 1)"
  "trace (notify_updated cfg name iwd service st) =
     trace st @
     [CounterInc (name, svc_id service, svc_short_id service) 1,
      Notify \<lparr>service_name = name, service_short_id = svc_short_id service,
              old_image = (if notify_include_old_image cfg then Some iwd else None),
              new_image = (if notify_include_new_image cfg then Some (svc_image service) else None)\<rparr>]"
  "world (notify_updated cfg name iwd service st) = world st"
  by (simp_all add: notify_updated_def counter_inc_def emit_fields counter_value_def emit_def)

text \<open>
  The calls made with a service name. Every call the wait, the body of the
  reconciliation loop, that loop and the priming loop add to the trace is made with
  the name of a service the loop runs over.
\<close>

lemma called_names_append: "called_names (xs @ ys) = called_names xs @ called_names ys"
  by (induction xs) (simp_all split: option.splits)

lemma spares_iff:
  "spares bl t t' \<longleftrightarrow> (\<exists>es. t' = t @ es \<and> (\<forall>n \<in> set (called_names es). n \<notin> set bl))"
proof
  assume s: "spares bl t t'"
  then have "t' = t @ drop (length t) t'"
    by (metis append_take_drop_id spares_def)
  moreover from s have "\<forall>n \<in> set (called_names (drop (length t) t')). n \<notin> set bl"
    by (simp add: spares_def list_all_iff)
  ultimately show "\<exists>es. t' = t @ es \<and> (\<forall>n \<in> set (called_names es). n \<notin> set bl)"
    by blast
next
  assume "\<exists>es. t' = t @ es \<and> (\<forall>n \<in> set (called_names es). n \<notin> set bl)"
  then show "spares bl t t'"
    by (auto simp: spares_def list_all_iff)
qed

lemma spares_refl: "spares bl t t"
  by (simp add: spares_def)

lemma spares_app: "\<forall>n \<in> set (called_names es). n \<notin> set bl \<Longrightarrow> spares bl t (t @ es)"
  by (simp add: spares_def list_all_iff)

lemma spares_trans:
  assumes "spares bl t t1" and "spares bl t1 t2"
  shows "spares bl t t2"
proof -
  from assms(1) obtain es1 where 1: "t1 = t @ es1" "\<forall>n \<in> set (called_names es1). n \<notin> set bl"
    by (auto simp: spares_iff)
  from assms(2) obtain es2 where 2: "t2 = t1 @ es2" "\<forall>n \<in> set (called_names es2). n \<notin> set bl"
    by (auto simp: spares_iff)
  from 1 2 have "t2 = t @ (es1 @ es2)" and "\<forall>n \<in> set (called_names (es1 @ es2)). n \<notin> set bl"
    by (auto simp: called_names_append)
  then show ?thesis
    unfolding spares_iff by blast
qed

lemma wait_updating_spares:
  assumes "wait_updating p cfg service services st = Some r"
  shows "spares bl (trace st) (trace (snd (snd r)))"
proof -
  let ?Q = "\<lambda>(st :: 'a state) (r :: service \<times> service list \<times> 'a state).
              spares bl (trace st) (trace (snd (snd r)))"
  show "?Q st r"
  proof (rule wait_updating.raw_induct [where P = "\<lambda>p cfg service services. ?Q", OF _ assms])
    fix wait :: "'a platform \<Rightarrow> settings \<Rightarrow> service \<Rightarrow> service list \<Rightarrow> 'a state \<Rightarrow>
                 (service \<times> service list \<times> 'a state) option"
      and p cfg service services st r
    assume IH: "\<And>p cfg service services st r.
                  wait p cfg service services st = Some r \<Longrightarrow> ?Q st r"
      and step: "(case service_reload p service (world st) of
        (reply, w) \<Rightarrow>
          (case reply of
             NotFound \<Rightarrow>
               (case get_services p cfg (emit (ServiceReload service) (st\<lparr>world := w\<rparr>)) of
                  (services', st') \<Rightarrow> Some (service, services', st'))
           | Reloaded service' \<Rightarrow>
               if svc_update_state service' = Some ''updating''
               then wait p cfg service' services
                      (emit (PauseSeconds 1) (emit (ServiceReload service) (st\<lparr>world := w\<rparr>)))
               else Some (service', services, emit (ServiceReload service) (st\<lparr>world := w\<rparr>)))) =
        Some r"
    obtain reply w where rw: "service_reload p service (world st) = (reply, w)"
      by (cases "service_reload p service (world st)")
    show "?Q st r"
    proof (cases reply)
      case NotFound
      obtain svcs st1 where g:
        "get_services p cfg (emit (ServiceReload service) (st\<lparr>world := w\<rparr>)) = (svcs, st1)"
        by (cases "get_services p cfg (emit (ServiceReload service) (st\<lparr>world := w\<rparr>))")
      from step rw NotFound g have r: "r = (service, svcs, st1)"
        by simp
      from get_services_fields(2) [OF g]
      have "trace st1 = trace st @ [ServiceReload service, ServicesList (filters cfg)]"
        by (simp add: emit_fields)
      then show ?thesis
        by (simp add: r spares_app)
    next
      case (Reloaded s')
      show ?thesis
      proof (cases "svc_update_state s' = Some ''updating''")
        case True
        let ?st1 = "emit (PauseSeconds 1) (emit (ServiceReload service) (st\<lparr>world := w\<rparr>))"
        from True step rw Reloaded have "wait p cfg s' services ?st1 = Some r"
          by simp
        from IH [OF this] have "spares bl (trace ?st1) (trace (snd (snd r)))" .
        moreover have "spares bl (trace st) (trace ?st1)"
          using spares_app [of "[ServiceReload service, PauseSeconds 1]" bl "trace st"]
          by (simp add: emit_fields)
        ultimately show ?thesis
          using spares_trans by blast
      next
        case False
        with step rw Reloaded
        have "r = (s', services, emit (ServiceReload service) (st\<lparr>world := w\<rparr>))"
          by auto
        then show ?thesis
          using spares_app [of "[ServiceReload service]" bl "trace st"]
          by (simp add: emit_fields)
      qed
    qed
  qed
qed

lemma reconcile_service_spares:
  assumes res: "reconcile_service p cfg service services st = Some (Inr (services', st'))"
    and parts: "get_image_parts (svc_image service) = Inr (img, sha)"
    and name: "svc_name service \<notin> set bl"
  shows "spares bl (trace st @ [GetRegistryData img]) (trace st')"
proof -
  obtain upd st1 where g: "get_updated_image p img sha st = (upd, st1)"
    by (cases "get_updated_image p img sha st")
  then have st1: "st1 = snd (get_updated_image p img sha st)"
    by simp
  have t1: "trace st1 = trace st @ [GetRegistryData img]"
    by (simp add: st1 get_updated_image_fields)
  show ?thesis
  proof (cases upd)
    case None
    with res parts g have "st' = st1"
      by (simp add: reconcile_service_def)
    with t1 show ?thesis by (simp add: spares_refl)
  next
    case (Some u)
    obtain ok st2 where up: "update_image p service u st1 = (ok, st2)"
      by (cases "update_image p service u st1")
    then have st2: "st2 = snd (update_image p service u st1)"
      by simp
    have t2: "trace st2 = trace st1 @ [ServiceUpdate service u]"
      by (simp add: st2 update_image_fields)
    have s2: "spares bl (trace st1) (trace st2)"
      using name spares_app [of "[ServiceUpdate service u]" bl "trace st1"] by (simp add: t2)
    show ?thesis
    proof (cases ok)
      case False
      with res parts g Some up have "st' = st2"
        by (simp add: reconcile_service_def)
      with s2 t1 show ?thesis by simp
    next
      case True
      with res parts g Some up obtain service' st3 where
        w: "wait_updating p cfg service services st2 = Some (service', services', st3)" and
        st': "st' = notify_updated cfg (svc_name service) (svc_image service) service' st3"
        by (auto simp: reconcile_service_def split: option.splits)
      from wait_updating_spares [OF w, of bl] have s3: "spares bl (trace st2) (trace st3)"
        by simp
      have "spares bl (trace st3) (trace st')"
        unfolding st' notify_updated_fields
        using name by (intro spares_app) simp
      with s2 s3 have "spares bl (trace st1) (trace st')"
        using spares_trans by blast
      with t1 show ?thesis by simp
    qed
  qed
qed

lemma reconcile_service_spares':
  assumes "reconcile_service p cfg service services st = Some (Inr (services', st'))"
    and "svc_name service \<notin> set bl"
  shows "spares bl (trace st) (trace st')"
proof (cases "get_image_parts (svc_image service)")
  case (Inl e)
  with assms(1) show ?thesis
    by (simp add: reconcile_service_def)
next
  case (Inr parts)
  then obtain img sha where parts: "get_image_parts (svc_image service) = Inr (img, sha)"
    by (cases parts) simp
  have "spares bl (trace st) (trace st @ [GetRegistryData img])"
    by (intro spares_app) simp
  with reconcile_service_spares [OF assms(1) parts assms(2)] show ?thesis
    using spares_trans by blast
qed

lemma reconcile_loop_spares:
  assumes "\<forall>service \<in> set svcs. svc_name service \<notin> set bl"
    and "reconcile_loop p cfg svcs services st = Some (Inr (services', st'))"
  shows "spares bl (trace st) (trace st')"
  using assms
proof (induction svcs arbitrary: services st)
  case Nil
  then show ?case by (simp add: spares_refl)
next
  case (Cons service rest)
  from Cons.prems(2) obtain sv1 st1 where
    body: "reconcile_service p cfg service services st = Some (Inr (sv1, st1))" and
    loop: "reconcile_loop p cfg rest sv1 st1 = Some (Inr (services', st'))"
    by (auto split: option.splits sum.splits)
  from Cons.prems(1) have "svc_name service \<notin> set bl" and
    rest: "\<forall>service \<in> set rest. svc_name service \<notin> set bl"
    by simp_all
  from reconcile_service_spares' [OF body this(1)] Cons.IH [OF rest loop]
  show ?case
    using spares_trans by blast
qed

lemma prime_loop_spares:
  assumes "\<forall>service \<in> set svcs. svc_name service \<notin> set bl"
  shows "spares bl (trace st) (trace (snd (prime_loop p cfg svcs services st)))"
  using assms
proof (induction svcs arbitrary: services st)
  case Nil
  then show ?case by (simp add: spares_refl)
next
  case (Cons service rest)
  from Cons.prems have name: "svc_name service \<notin> set bl" and
    rest: "\<forall>service \<in> set rest. svc_name service \<notin> set bl"
    by simp_all
  obtain found w where f: "service_found p service (world st) = (found, w)"
    by (cases "service_found p service (world st)")
  show ?case
  proof (cases found)
    case True
    let ?st1 = "counter_inc (svc_name service, svc_id service, svc_short_id service) 0
                  (st\<lparr>world := w\<rparr>)"
    have "spares bl (trace st) (trace ?st1)"
      using name
        spares_app [of "[CounterInc (svc_name service, svc_id service, svc_short_id service) 0]"
          bl "trace st"]
      by (simp add: counter_inc_fields)
    with Cons.IH [OF rest, of ?st1 services] f True show ?thesis
      using spares_trans by fastforce
  next
    case False
    obtain services' st1 where g: "get_services p cfg (st\<lparr>world := w\<rparr>) = (services', st1)"
      by (cases "get_services p cfg (st\<lparr>world := w\<rparr>)")
    from get_services_fields(2) [OF g]
    have "spares bl (trace st) (trace st1)"
      using spares_app [of "[ServicesList (filters cfg)]" bl "trace st"] by simp
    with Cons.IH [OF rest, of st1 services'] f False g show ?thesis
      using spares_trans by fastforce
  qed
qed

section \<open>The sleep interval\<close>

lemma isdigit_not_isalpha: "isdigit c \<Longrightarrow> \<not> isalpha c"
  by (auto simp: isdigit_def isalpha_def Let_def)

lemma int_space_not_isalpha: "int_space c \<Longrightarrow> \<not> isalpha c"
  by (auto simp: int_space_def isalpha_def Let_def)

lemma sign_not_isalpha:
  "\<not> isalpha (CHR ''_'')" "\<not> isalpha (CHR ''-'')" "\<not> isalpha (CHR ''+'')"
  by (simp_all add: isalpha_def)

lemma int_digits_no_alpha: "int_digits acc cs = Some n \<Longrightarrow> c \<in> set cs \<Longrightarrow> \<not> isalpha c"
proof (induction acc cs arbitrary: n rule: int_digits.induct)
  case (1 acc)
  then show ?case by simp
next
  case (2 acc d)
  then show ?case
    by (auto dest: isdigit_not_isalpha split: if_splits)
next
  case (3 acc a d cs)
  show ?case
  proof (cases "isdigit a")
    case True
    with 3 show ?thesis
      by (auto dest: isdigit_not_isalpha)
  next
    case False
    with "3.prems" have u: "a = CHR ''_''" and d: "isdigit d"
      and r: "int_digits (10 * acc + digit_val d) cs = Some n"
      by (auto split: if_splits)
    from "3.prems"(2) consider "c = a" | "c = d" | "c \<in> set cs"
      by auto
    then show ?thesis
    proof cases
      case 1
      with u show ?thesis by (simp add: sign_not_isalpha)
    next
      case 2
      with d show ?thesis by (simp add: isdigit_not_isalpha)
    next
      case 3
      from "3.IH"(2) [OF False _ r 3] u d show ?thesis by simp
    qed
  qed
qed

lemma int_unsigned_no_alpha: "int_unsigned s = Some n \<Longrightarrow> c \<in> set s \<Longrightarrow> \<not> isalpha c"
  by (cases s) (auto simp: int_unsigned_def dest: isdigit_not_isalpha int_digits_no_alpha split: if_splits)

lemma set_strip:
  "set s \<subseteq> {c. P c} \<union> set (rev (dropWhile P (rev (dropWhile P s))))"
proof -
  have a: "set xs \<subseteq> {c. P c} \<union> set (dropWhile P xs)" for xs :: "'a list"
  proof -
    have "set xs = set (takeWhile P xs) \<union> set (dropWhile P xs)"
      by (metis set_append takeWhile_dropWhile_id)
    moreover have "set (takeWhile P xs) \<subseteq> {c. P c}"
      by (auto dest: set_takeWhileD)
    ultimately show ?thesis by auto
  qed
  from a [of s] a [of "rev (dropWhile P s)"] show ?thesis
    by auto
qed

lemma py_int_no_alpha:
  assumes "py_int s = Some n"
  shows "\<not> list_ex isalpha s"
proof -
  let ?t = "rev (dropWhile int_space (rev (dropWhile int_space s)))"
  have t: "\<not> isalpha c" if "c \<in> set ?t" for c
  proof (cases ?t)
    case Nil
    with that show ?thesis by simp
  next
    case (Cons a cs)
    with assms have "(a = CHR ''-'' \<and> (\<exists>m. int_unsigned cs = Some m)) \<or>
       (a = CHR ''+'' \<and> (\<exists>m. int_unsigned cs = Some m)) \<or> (\<exists>m. int_unsigned ?t = Some m)"
      by (auto simp: py_int_def Let_def split: if_splits)
    with that Cons show ?thesis
      by (auto simp: sign_not_isalpha dest: int_unsigned_no_alpha)
  qed
  have "\<not> isalpha c" if "c \<in> set s" for c
    using that set_strip [of s int_space] t int_space_not_isalpha by auto
  then show ?thesis
    by (auto simp: list_ex_iff)
qed

lemma relation_isalpha: "relation c = Some t \<Longrightarrow> isalpha c"
  by (auto simp: relation_def isalpha_def split: if_splits)

lemma parse_sleep_time_bare:
  "py_int s = Some n \<Longrightarrow> parse_sleep_time s = Inr (n, Minutes)"
  using py_int_no_alpha [of s n] by (simp add: parse_sleep_time_def)

lemma parse_sleep_time_unit:
  "py_int ds = Some n \<Longrightarrow> relation c = Some t \<Longrightarrow> parse_sleep_time (ds @ [c]) = Inr (n, t)"
  using relation_isalpha [of c t] by (simp add: parse_sleep_time_def)

lemma parse_sleep_time_other_letter:
  "isalpha c \<Longrightarrow> relation c = None \<Longrightarrow> parse_sleep_time (ds @ [c]) = Inl ValueError"
  by (simp add: parse_sleep_time_def split: option.splits)

lemma parse_sleep_time_not_numeric:
  "isalpha c \<Longrightarrow> py_int ds = None \<Longrightarrow> parse_sleep_time (ds @ [c]) = Inl ValueError"
  by (simp add: parse_sleep_time_def)

lemma main_init_error:
  "parse_sleep_time (sleep_time cfg) = Inl e \<Longrightarrow> main p cfg n st = Some (Inl e)"
  by (simp add: main_def init_def)

lemma parse_sleep_time_Inr_iff:
  "parse_sleep_time s = Inr (n, t) \<longleftrightarrow>
     (py_int s = Some n \<and> t = Minutes) \<or>
     (\<exists>ds c. s = ds @ [c] \<and> py_int ds = Some n \<and> relation c = Some t)"
proof
  assume r: "parse_sleep_time s = Inr (n, t)"
  show "(py_int s = Some n \<and> t = Minutes) \<or>
     (\<exists>ds c. s = ds @ [c] \<and> py_int ds = Some n \<and> relation c = Some t)"
  proof (cases "list_ex isalpha s")
    case True
    then have "s \<noteq> []" by auto
    then have s: "s = butlast s @ [last s]" by simp
    from r True have "py_int (butlast s) = Some n \<and> relation (last s) = Some t"
      by (auto simp: parse_sleep_time_def split: option.splits)
    with s show ?thesis by blast
  next
    case False
    with r show ?thesis
      by (auto simp: parse_sleep_time_def split: option.splits)
  qed
next
  assume "(py_int s = Some n \<and> t = Minutes) \<or>
     (\<exists>ds c. s = ds @ [c] \<and> py_int ds = Some n \<and> relation c = Some t)"
  then show "parse_sleep_time s = Inr (n, t)"
    by (auto simp: parse_sleep_time_bare parse_sleep_time_unit)
qed

lemma parse_sleep_time_Inl: "parse_sleep_time s = Inl e \<Longrightarrow> e = ValueError"
  by (auto simp: parse_sleep_time_def split: option.splits if_splits)

lemma relation_iff:
  "relation c = Some t \<longleftrightarrow>
   (c, t) \<in> {(CHR ''s'', Seconds), (CHR ''m'', Minutes), (CHR ''h'', Hours),
             (CHR ''d'', Days), (CHR ''w'', Weeks)}"
  by (auto simp: relation_def)

lemmas sleep_eval =
  parse_sleep_time_def isalpha_def py_int_def int_space_def int_unsigned_def isdigit_def
  digit_val_def relation_def sleep_seconds_def unit_seconds_def

text \<open>
  Claim C4. A bare integer string is that many minutes; an integer followed by one of
  \<open>s\<close>, \<open>m\<close>, \<open>h\<close>, \<open>d\<close>, \<open>w\<close> is that many seconds, minutes, hours, days or
  weeks; a string ending in another letter, or in a letter after something \<open>int\<close>
  does not read, raises ValueError; no other string is accepted and no other error is
  raised; the error leaves \<open>__init__\<close>, so \<open>run\<close> does not start. The six examples of
  the specification are evaluated.
\<close>

theorem sleep_time_parsing:
  "(py_int s = Some n \<longrightarrow> parse_sleep_time s = Inr (n, Minutes)) \<and>
   (py_int ds = Some n \<and> relation c = Some t \<longrightarrow> parse_sleep_time (ds @ [c]) = Inr (n, t)) \<and>
   (relation c = Some t \<longleftrightarrow>
      (c, t) \<in> {(CHR ''s'', Seconds), (CHR ''m'', Minutes), (CHR ''h'', Hours),
                (CHR ''d'', Days), (CHR ''w'', Weeks)}) \<and>
   sleep_seconds (n, Seconds) = n \<and> sleep_seconds (n, Minutes) = n * 60 \<and>
   sleep_seconds (n, Hours) = n * 3600 \<and> sleep_seconds (n, Days) = n * 86400 \<and>
   sleep_seconds (n, Weeks) = n * 604800 \<and>
   (isalpha c \<and> relation c = None \<longrightarrow> parse_sleep_time (ds @ [c]) = Inl ValueError) \<and>
   (isalpha c \<and> py_int ds = None \<longrightarrow> parse_sleep_time (ds @ [c]) = Inl ValueError) \<and>
   (parse_sleep_time s = Inr (n, t) \<longleftrightarrow>
      (py_int s = Some n \<and> t = Minutes) \<or>
      (\<exists>ds c. s = ds @ [c] \<and> py_int ds = Some n \<and> relation c = Some t)) \<and>
   (parse_sleep_time s = Inl e \<longrightarrow> e = ValueError) \<and>
   (parse_sleep_time (sleep_time cfg) = Inl e \<longrightarrow> main p cfg k st = Some (Inl e)) \<and>
   parse_sleep_time ''5m'' = Inr (5, Minutes) \<and> sleep_seconds (5, Minutes) = 300 \<and>
   parse_sleep_time ''30'' = Inr (30, Minutes) \<and> sleep_seconds (30, Minutes) = 30 * 60 \<and>
   parse_sleep_time ''2h'' = Inr (2, Hours) \<and> sleep_seconds (2, Hours) = 7200 \<and>
   parse_sleep_time ''3w'' = Inr (3, Weeks) \<and> sleep_seconds (3, Weeks) = 3 * 604800 \<and>
   parse_sleep_time ''abc'' = Inl ValueError \<and> parse_sleep_time ''5x'' = Inl ValueError"
proof -
  have units: "sleep_seconds (n, Seconds) = n \<and> sleep_seconds (n, Minutes) = n * 60 \<and>
   sleep_seconds (n, Hours) = n * 3600 \<and> sleep_seconds (n, Days) = n * 86400 \<and>
   sleep_seconds (n, Weeks) = n * 604800"
    by (simp add: sleep_seconds_def unit_seconds_def)
  have ex: "parse_sleep_time ''5m'' = Inr (5, Minutes) \<and> sleep_seconds (5, Minutes) = 300 \<and>
   parse_sleep_time ''30'' = Inr (30, Minutes) \<and> sleep_seconds (30, Minutes) = 30 * 60 \<and>
   parse_sleep_time ''2h'' = Inr (2, Hours) \<and> sleep_seconds (2, Hours) = 7200 \<and>
   parse_sleep_time ''3w'' = Inr (3, Weeks) \<and> sleep_seconds (3, Weeks) = 3 * 604800 \<and>
   parse_sleep_time ''abc'' = Inl ValueError \<and> parse_sleep_time ''5x'' = Inl ValueError"
    by (simp add: sleep_eval)
  show ?thesis
    using units ex parse_sleep_time_bare [of s n] parse_sleep_time_unit [of ds n c t]
      relation_iff [of c t] parse_sleep_time_other_letter [of c ds]
      parse_sleep_time_not_numeric [of c ds] parse_sleep_time_Inr_iff [of s n t]
      parse_sleep_time_Inl [of s e] main_init_error [of cfg e p k st]
    by blast
qed

theorem sleep_time_parsing_witness:
  "py_int ''30'' = Some 30 \<and> parse_sleep_time ''30'' = Inr (30, Minutes) \<and>
   py_int ''2'' = Some 2 \<and> relation (CHR ''h'') = Some Hours \<and>
   parse_sleep_time (''2'' @ [CHR ''h'']) = Inr (2, Hours) \<and>
   isalpha (CHR ''x'') \<and> relation (CHR ''x'') = None \<and>
   parse_sleep_time (''5'' @ [CHR ''x'']) = Inl ValueError \<and>
   isalpha (CHR ''c'') \<and> py_int ''ab'' = None \<and>
   parse_sleep_time (''ab'' @ [CHR ''c'']) = Inl ValueError \<and>
   parse_sleep_time ''5x'' = Inl ValueError \<and>
   parse_sleep_time (sleep_time (default_settings\<lparr>sleep_time := ''5x''\<rparr>)) = Inl ValueError \<and>
   main platform_converged (default_settings\<lparr>sleep_time := ''5x''\<rparr>) 3 start_state =
     Some (Inl ValueError)"
proof -
  have h: "py_int ''30'' = Some 30 \<and> py_int ''2'' = Some 2 \<and> relation (CHR ''h'') = Some Hours \<and>
    isalpha (CHR ''x'') \<and> relation (CHR ''x'') = None \<and> isalpha (CHR ''c'') \<and>
    py_int ''ab'' = None \<and>
    parse_sleep_time (sleep_time (default_settings\<lparr>sleep_time := ''5x''\<rparr>)) = Inl ValueError"
    by (simp add: sleep_eval)
  from h sleep_time_parsing [of "''30''" 30 "''2''" "CHR ''h''" Hours]
    sleep_time_parsing [of "''30''" 30 "''5''" "CHR ''x''" Hours]
    sleep_time_parsing [of "''5x''" 5 "''5''" "CHR ''x''" Hours ValueError]
    sleep_time_parsing [of "''30''" 30 "''ab''" "CHR ''c''" Hours ValueError
      "default_settings\<lparr>sleep_time := ''5x''\<rparr>" platform_converged 3 start_state]
  show ?thesis
    by simp
qed

section \<open>The reconciliation pass\<close>

lemma reconcile_loop_step:
  "reconcile_service p cfg service services st = Some (Inr (services', st')) \<Longrightarrow>
   reconcile_loop p cfg (service # rest) services st = reconcile_loop p cfg rest services' st'"
  by simp

lemma reconcile_loop_converged:
  assumes "\<forall>service \<in> set svcs. \<exists>img d.
             get_image_parts (svc_image service) = Inr (img, Some d) \<and>
             (\<forall>w. fst (get_registry_data p img w) = RegistryData d)"
  shows "\<exists>st'. reconcile_loop p cfg svcs services st = Some (Inr (services, st')) \<and>
           counters st' = counters st \<and>
           trace st' = trace st @
             map (\<lambda>service. GetRegistryData (fst (spec_parse_reference (svc_image service)))) svcs"
  using assms
proof (induction svcs arbitrary: st)
  case Nil
  then show ?case by simp
next
  case (Cons service rest)
  from Cons.prems obtain img d where
    parts: "get_image_parts (svc_image service) = Inr (img, Some d)" and
    reg: "\<forall>w. fst (get_registry_data p img w) = RegistryData d"
    by auto
  let ?st1 = "snd (get_updated_image p img (Some d) st)"
  from reg have "fst (get_updated_image p img (Some d) st) = None"
    by (simp add: get_updated_image_same)
  with parts have step: "reconcile_service p cfg service services st = Some (Inr (services, ?st1))"
    by (rule reconcile_service_no_plan)
  from Cons.prems have "\<forall>service \<in> set rest. \<exists>img d.
             get_image_parts (svc_image service) = Inr (img, Some d) \<and>
             (\<forall>w. fst (get_registry_data p img w) = RegistryData d)"
    by simp
  from Cons.IH [OF this, of ?st1] obtain st' where
    loop: "reconcile_loop p cfg rest services ?st1 = Some (Inr (services, st'))" and
    c: "counters st' = counters ?st1" and
    t: "trace st' = trace ?st1 @
          map (\<lambda>service. GetRegistryData (fst (spec_parse_reference (svc_image service)))) rest"
    by blast
  from parts have img: "img = fst (spec_parse_reference (svc_image service))"
    by (rule get_image_parts_fst)
  have "reconcile_loop p cfg (service # rest) services st = Some (Inr (services, st'))"
    using reconcile_loop_step [OF step] loop by simp
  moreover have "counters st' = counters st"
    using c by (simp add: get_updated_image_fields)
  moreover have "trace st' = trace st @
     map (\<lambda>service. GetRegistryData (fst (spec_parse_reference (svc_image service)))) (service # rest)"
    using t img by (simp add: get_updated_image_fields)
  ultimately show ?case by blast
qed

text \<open>
  When every service is found, the priming pass lists nothing again, makes one counter
  call of amount 0 for each service of the list, which leaves every value as it was,
  and every service of the list has its series afterwards.
\<close>

lemma prime_loop_keeps_series:
  "counters st k \<noteq> None \<Longrightarrow> counters (snd (prime_loop p cfg svcs services st)) k \<noteq> None"
proof (induction svcs arbitrary: services st)
  case Nil
  then show ?case by simp
next
  case (Cons service rest)
  obtain found w where f: "service_found p service (world st) = (found, w)"
    by (cases "service_found p service (world st)")
  show ?case
  proof (cases found)
    case True
    let ?st1 = "counter_inc (svc_name service, svc_id service, svc_short_id service) 0
                  (st\<lparr>world := w\<rparr>)"
    have "counters ?st1 k \<noteq> None"
      using Cons.prems by (simp add: counter_inc_fields)
    from Cons.IH [OF this] f True show ?thesis by simp
  next
    case False
    obtain services' st1 where g: "get_services p cfg (st\<lparr>world := w\<rparr>) = (services', st1)"
      by (cases "get_services p cfg (st\<lparr>world := w\<rparr>)")
    from get_services_fields(1) [OF g] Cons.prems have "counters st1 k \<noteq> None"
      by simp
    from Cons.IH [OF this] f False g show ?thesis by simp
  qed
qed

lemma prime_loop_all_found:
  assumes "\<forall>service w. fst (service_found p service w)"
  shows "\<exists>st'. prime_loop p cfg svcs services st = (services, st') \<and>
           trace st' = trace st @
             map (\<lambda>service. CounterInc (svc_name service, svc_id service, svc_short_id service) 0)
               svcs \<and>
           (\<forall>l. counter_value st' l = counter_value st l) \<and>
           (\<forall>service \<in> set svcs.
              counters st' (svc_name service, svc_id service, svc_short_id service) \<noteq> None)"
proof (induction svcs arbitrary: st)
  case Nil
  show ?case by simp
next
  case (Cons service rest)
  let ?l = "(svc_name service, svc_id service, svc_short_id service)"
  obtain found w where f: "service_found p service (world st) = (found, w)"
    by (cases "service_found p service (world st)")
  with assms have found: found
    by (metis fst_conv)
  let ?st1 = "counter_inc ?l 0 (st\<lparr>world := w\<rparr>)"
  from Cons.IH [of ?st1] obtain st' where
    loop: "prime_loop p cfg rest services ?st1 = (services, st')" and
    tr: "trace st' = trace ?st1 @
           map (\<lambda>service. CounterInc (svc_name service, svc_id service, svc_short_id service) 0)
             rest" and
    vals: "\<forall>l. counter_value st' l = counter_value ?st1 l" and
    some: "\<forall>service \<in> set rest.
              counters st' (svc_name service, svc_id service, svc_short_id service) \<noteq> None"
    by blast
  have v1: "counter_value ?st1 l = counter_value st l" for l
    by (simp add: counter_value_def counter_inc_fields)
  have "counters ?st1 ?l \<noteq> None"
    by (simp add: counter_inc_fields)
  from prime_loop_keeps_series [OF this, of p cfg rest services] loop
  have here: "counters st' ?l \<noteq> None"
    by simp
  have "prime_loop p cfg (service # rest) services st = (services, st')"
    using f found loop by simp
  moreover have "trace st' = trace st @
      map (\<lambda>s. CounterInc (svc_name s, svc_id s, svc_short_id s) 0) (service # rest)"
    using tr by (simp add: counter_inc_fields)
  moreover have "\<forall>l. counter_value st' l = counter_value st l"
    using vals v1 by simp
  moreover have "\<forall>s \<in> set (service # rest).
              counters st' (svc_name s, svc_id s, svc_short_id s) \<noteq> None"
    using some here by simp
  ultimately show ?case by blast
qed

lemma observe_counter_incs:
  "update_calls (map (\<lambda>x. CounterInc (f x) n) xs) = []"
  "notifications (map (\<lambda>x. CounterInc (f x) n) xs) = []"
  "reload_calls (map (\<lambda>x. CounterInc (f x) n) xs) = []"
  by (induction xs) simp_all

lemma observe_registry_queries:
  "update_calls (map (\<lambda>x. GetRegistryData (g x)) xs) = []"
  "notifications (map (\<lambda>x. GetRegistryData (g x)) xs) = []"
  "reload_calls (map (\<lambda>x. GetRegistryData (g x)) xs) = []"
  "counter_calls (map (\<lambda>x. GetRegistryData (g x)) xs) = []"
  by (induction xs) simp_all

lemma run_cycle_converged:
  assumes found: "\<forall>service w. fst (service_found p service w)"
    and conv: "\<forall>service \<in> set (fst (get_services p cfg st)). \<exists>img d.
             get_image_parts (svc_image service) = Inr (img, Some d) \<and>
             (\<forall>w. fst (get_registry_data p img w) = RegistryData d)"
  shows "\<exists>st'. run_cycle p cfg st = Some (Inr (fst (get_services p cfg st), st')) \<and>
           (\<forall>l. counter_value st' l = counter_value st l) \<and>
           update_calls (trace st') = update_calls (trace st) \<and>
           reload_calls (trace st') = reload_calls (trace st) \<and>
           notifications (trace st') = notifications (trace st)"
proof -
  obtain svcs st1 where g: "get_services p cfg st = (svcs, st1)"
    by (cases "get_services p cfg st")
  note g1 = get_services_fields(1,2) [OF g]
  from prime_loop_all_found [OF found, of cfg svcs svcs st1] obtain st2 where
    pl: "prime_loop p cfg svcs svcs st1 = (svcs, st2)" and
    t2: "trace st2 = trace st1 @
           map (\<lambda>service. CounterInc (svc_name service, svc_id service, svc_short_id service) 0)
             svcs" and
    v2: "\<forall>l. counter_value st2 l = counter_value st1 l"
    by blast
  from conv g have "\<forall>service \<in> set svcs. \<exists>img d.
             get_image_parts (svc_image service) = Inr (img, Some d) \<and>
             (\<forall>w. fst (get_registry_data p img w) = RegistryData d)"
    by simp
  from reconcile_loop_converged [OF this, of cfg svcs st2] obtain st3 where
    rl: "reconcile_loop p cfg svcs svcs st2 = Some (Inr (svcs, st3))" and
    c3: "counters st3 = counters st2" and
    t3: "trace st3 = trace st2 @
           map (\<lambda>service. GetRegistryData (fst (spec_parse_reference (svc_image service)))) svcs"
    by blast
  have "run_cycle p cfg st = Some (Inr (fst (get_services p cfg st), st3))"
    using g pl rl by (simp add: run_cycle_def)
  moreover have "\<forall>l. counter_value st3 l = counter_value st l"
    using c3 v2 g1(1) by (simp add: counter_value_def)
  moreover have "update_calls (trace st3) = update_calls (trace st)"
    and "reload_calls (trace st3) = reload_calls (trace st)"
    and "notifications (trace st3) = notifications (trace st)"
    using t3 t2 g1(2)
    by (simp_all add: observe_append observe_counter_incs observe_registry_queries)
  ultimately show ?thesis by blast
qed


text \<open>
  Claim C5. When the registry returns the digest a service is pinned to, the resolver
  returns no plan. A reconciliation pass over services that are all pinned to the
  digest the registry returns makes the registry queries and nothing else: no update
  call, no reload, no notification, no counter call; the counters and the variable
  \<open>services\<close> are what they were. A whole cycle on such a fleet, with every service
  found in the priming pass, changes the value of no counter and makes no update call,
  no reload and no notification.
\<close>

theorem converged_fleet_fixed_point:
  "(fst (get_registry_data p img (world st)) = RegistryData d \<longrightarrow>
      fst (get_updated_image p img (Some d) st) = None) \<and>
   ((\<forall>service \<in> set svcs. \<exists>img d.
        get_image_parts (svc_image service) = Inr (img, Some d) \<and>
        (\<forall>w. fst (get_registry_data p img w) = RegistryData d)) \<longrightarrow>
    (\<exists>st'. reconcile_loop p cfg svcs services st = Some (Inr (services, st')) \<and>
           counters st' = counters st \<and>
           trace st' = trace st @
             map (\<lambda>service. GetRegistryData (fst (spec_parse_reference (svc_image service)))) svcs)) \<and>
   ((\<forall>service w. fst (service_found p service w)) \<and>
    (\<forall>service \<in> set (fst (get_services p cfg st)). \<exists>img d.
        get_image_parts (svc_image service) = Inr (img, Some d) \<and>
        (\<forall>w. fst (get_registry_data p img w) = RegistryData d)) \<longrightarrow>
    (\<exists>st'. run_cycle p cfg st = Some (Inr (fst (get_services p cfg st), st')) \<and>
           (\<forall>l. counter_value st' l = counter_value st l) \<and>
           update_calls (trace st') = update_calls (trace st) \<and>
           reload_calls (trace st') = reload_calls (trace st) \<and>
           notifications (trace st') = notifications (trace st)))"
proof (intro conjI impI)
  assume "fst (get_registry_data p img (world st)) = RegistryData d"
  then show "fst (get_updated_image p img (Some d) st) = None"
    by (rule get_updated_image_same)
next
  assume "\<forall>service \<in> set svcs. \<exists>img d.
        get_image_parts (svc_image service) = Inr (img, Some d) \<and>
        (\<forall>w. fst (get_registry_data p img w) = RegistryData d)"
  then show "\<exists>st'. reconcile_loop p cfg svcs services st = Some (Inr (services, st')) \<and>
           counters st' = counters st \<and>
           trace st' = trace st @
             map (\<lambda>service. GetRegistryData (fst (spec_parse_reference (svc_image service)))) svcs"
    by (rule reconcile_loop_converged)
next
  assume a: "(\<forall>service w. fst (service_found p service w)) \<and>
    (\<forall>service \<in> set (fst (get_services p cfg st)). \<exists>img d.
        get_image_parts (svc_image service) = Inr (img, Some d) \<and>
        (\<forall>w. fst (get_registry_data p img w) = RegistryData d))"
  then have found: "\<forall>service w. fst (service_found p service w)"
    and conv: "\<forall>service \<in> set (fst (get_services p cfg st)). \<exists>img d.
        get_image_parts (svc_image service) = Inr (img, Some d) \<and>
        (\<forall>w. fst (get_registry_data p img w) = RegistryData d)"
    by blast+
  from run_cycle_converged [OF found conv]
  show "\<exists>st'. run_cycle p cfg st = Some (Inr (fst (get_services p cfg st), st')) \<and>
           (\<forall>l. counter_value st' l = counter_value st l) \<and>
           update_calls (trace st') = update_calls (trace st) \<and>
           reload_calls (trace st') = reload_calls (trace st) \<and>
           notifications (trace st') = notifications (trace st)" .
qed

theorem converged_fleet_fixed_point_witness:
  "fst (get_registry_data platform_converged ''repo/app'' (world start_state)) =
     RegistryData ''sha256:AAA'' \<and>
   fst (get_updated_image platform_converged ''repo/app'' (Some ''sha256:AAA'') start_state) = None \<and>
   (\<exists>img d. get_image_parts (svc_image svc_web) = Inr (img, Some d) \<and>
        (\<forall>w. fst (get_registry_data platform_converged img w) = RegistryData d)) \<and>
   (\<exists>img d. get_image_parts (svc_image svc_api) = Inr (img, Some d) \<and>
        (\<forall>w. fst (get_registry_data platform_converged img w) = RegistryData d)) \<and>
   (\<exists>st'. reconcile_loop platform_converged default_settings [svc_web, svc_api] [svc_web, svc_api]
            start_state = Some (Inr ([svc_web, svc_api], st')) \<and>
          counters st' = counters start_state \<and>
          trace st' = [GetRegistryData ''repo/app'', GetRegistryData ''repo/api'']) \<and>
   (\<forall>service w. fst (service_found platform_converged service w)) \<and>
   fst (get_services platform_converged default_settings start_state) = [svc_web, svc_api] \<and>
   (\<exists>st'. run_cycle platform_converged default_settings start_state =
            Some (Inr ([svc_web, svc_api], st')) \<and>
          (\<forall>l. counter_value st' l = 0) \<and>
          update_calls (trace st') = [] \<and> reload_calls (trace st') = [] \<and>
          notifications (trace st') = [])"
proof -
  have g: "fst (get_services platform_converged default_settings start_state) = [svc_web, svc_api]"
    by (simp add: fixture_eval)
  have z: "counter_value start_state l = 0" for l
    by (simp add: counter_value_def start_state_def)
  have t: "trace start_state = []"
    by (simp add: start_state_def)
  have h: "(\<forall>service w. fst (service_found platform_converged service w)) \<and>
   (\<exists>img d. get_image_parts (svc_image svc_web) = Inr (img, Some d) \<and>
        (\<forall>w. fst (get_registry_data platform_converged img w) = RegistryData d)) \<and>
   (\<exists>img d. get_image_parts (svc_image svc_api) = Inr (img, Some d) \<and>
        (\<forall>w. fst (get_registry_data platform_converged img w) = RegistryData d)) \<and>
   fst (get_registry_data platform_converged ''repo/app'' (world start_state)) =
     RegistryData ''sha256:AAA''"
    by (simp add: fixture_eval)
  have e: "fst (spec_parse_reference (svc_image svc_web)) = ''repo/app''"
    "fst (spec_parse_reference (svc_image svc_api)) = ''repo/api''"
    by (simp_all add: fixture_eval)
  from h g z t converged_fleet_fixed_point [of platform_converged "''repo/app''" start_state
      "''sha256:AAA''" "[svc_web, svc_api]" default_settings "[svc_web, svc_api]"]
  show ?thesis
    by (simp add: e)
qed

lemma reconcile_service_registry_calls:
  assumes "reconcile_service p cfg service services st = Some (Inr (services', st'))"
    and parts: "get_image_parts (svc_image service) = Inr (img, sha)"
  shows "registry_calls (trace st') = registry_calls (trace st) @ [img]"
proof -
  obtain upd st1 where g: "get_updated_image p img sha st = (upd, st1)"
    by (cases "get_updated_image p img sha st")
  then have st1: "st1 = snd (get_updated_image p img sha st)"
    by simp
  have r1: "registry_calls (trace st1) = registry_calls (trace st) @ [img]"
    by (simp add: st1 get_updated_image_fields observe_append)
  show ?thesis
  proof (cases upd)
    case None
    with assms g have "st' = st1"
      by (simp add: reconcile_service_def)
    with r1 show ?thesis by simp
  next
    case (Some u)
    obtain ok st2 where up: "update_image p service u st1 = (ok, st2)"
      by (cases "update_image p service u st1")
    then have st2: "st2 = snd (update_image p service u st1)"
      by simp
    have r2: "registry_calls (trace st2) = registry_calls (trace st) @ [img]"
      using r1 by (simp add: st2 update_image_fields observe_append)
    show ?thesis
    proof (cases ok)
      case False
      with assms g Some up have "st' = st2"
        by (simp add: reconcile_service_def)
      with r2 show ?thesis by simp
    next
      case True
      with assms g Some up obtain service' st3 where
        w: "wait_updating p cfg service services st2 = Some (service', services', st3)" and
        st': "st' = notify_updated cfg (svc_name service) (svc_image service) service' st3"
        by (auto simp: reconcile_service_def split: option.splits)
      from wait_updating_quiet(5) [OF w] r2
      show ?thesis
        by (simp add: st' notify_updated_fields observe_append)
    qed
  qed
qed

lemma reconcile_loop_all_refused:
  assumes "\<forall>service \<in> set svcs. \<exists>img sha.
             get_image_parts (svc_image service) = Inr (img, sha) \<and>
             sha \<noteq> Some (digest img) \<and>
             (\<forall>w. fst (get_registry_data p img w) = RegistryData (digest img)) \<and>
             (\<forall>u w. \<not> fst (service_update p service u w))"
  shows "\<exists>st'. reconcile_loop p cfg svcs services st = Some (Inr (services, st')) \<and>
           counters st' = counters st \<and>
           trace st' = trace st @
             concat (map (\<lambda>service.
               [GetRegistryData (fst (spec_parse_reference (svc_image service))),
                ServiceUpdate service
                  (fst (spec_parse_reference (svc_image service)) @ ''@'' @
                   digest (fst (spec_parse_reference (svc_image service))))]) svcs)"
  using assms
proof (induction svcs arbitrary: st)
  case Nil
  then show ?case by simp
next
  case (Cons service rest)
  from Cons.prems obtain img sha where
    parts: "get_image_parts (svc_image service) = Inr (img, sha)" and
    ne: "sha \<noteq> Some (digest img)" and
    reg: "\<forall>w. fst (get_registry_data p img w) = RegistryData (digest img)" and
    ref: "\<forall>u w. \<not> fst (service_update p service u w)"
    by auto
  let ?u = "img @ ''@'' @ digest img"
  let ?st1 = "snd (get_updated_image p img sha st)"
  let ?st2 = "snd (update_image p service ?u ?st1)"
  from reg ne have "fst (get_updated_image p img sha st) = Some ?u"
    by (simp add: get_updated_image_differs)
  then have g: "get_updated_image p img sha st = (Some ?u, ?st1)"
    by (cases "get_updated_image p img sha st") simp
  from ref have "\<not> fst (service_update p service ?u (world ?st1))"
    by simp
  with parts g
  have step: "reconcile_service p cfg service services st = Some (Inr (services, ?st2))"
    by (rule reconcile_service_failed)
  from Cons.prems have "\<forall>service \<in> set rest. \<exists>img sha.
             get_image_parts (svc_image service) = Inr (img, sha) \<and>
             sha \<noteq> Some (digest img) \<and>
             (\<forall>w. fst (get_registry_data p img w) = RegistryData (digest img)) \<and>
             (\<forall>u w. \<not> fst (service_update p service u w))"
    by simp
  from Cons.IH [OF this, of ?st2] obtain st' where
    loop: "reconcile_loop p cfg rest services ?st2 = Some (Inr (services, st'))" and
    c: "counters st' = counters ?st2" and
    t: "trace st' = trace ?st2 @
          concat (map (\<lambda>service.
               [GetRegistryData (fst (spec_parse_reference (svc_image service))),
                ServiceUpdate service
                  (fst (spec_parse_reference (svc_image service)) @ ''@'' @
                   digest (fst (spec_parse_reference (svc_image service))))]) rest)"
    by blast
  from parts have img: "img = fst (spec_parse_reference (svc_image service))"
    by (rule get_image_parts_fst)
  have "reconcile_loop p cfg (service # rest) services st = Some (Inr (services, st'))"
    using reconcile_loop_step [OF step] loop by simp
  moreover have "counters st' = counters st"
    using c by (simp add: update_image_fields get_updated_image_fields)
  moreover have "trace st' = trace st @
          concat (map (\<lambda>service.
               [GetRegistryData (fst (spec_parse_reference (svc_image service))),
                ServiceUpdate service
                  (fst (spec_parse_reference (svc_image service)) @ ''@'' @
                   digest (fst (spec_parse_reference (svc_image service))))]) (service # rest))"
    using t img by (simp add: update_image_fields get_updated_image_fields)
  ultimately show ?case by blast
qed

lemma reconcile_loop_two:
  "reconcile_service p cfg service services st = Some (Inr (services', st')) \<Longrightarrow>
   reconcile_loop p cfg [service, following] services st =
   reconcile_service p cfg following services' st'"
  by (simp split: option.splits sum.splits)

lemma reconcile_service_first_call:
  assumes "reconcile_service p cfg service services st = Some (Inr (services', st'))"
  shows "\<exists>es. trace st' =
           trace st @ GetRegistryData (fst (spec_parse_reference (svc_image service))) # es"
proof (cases "get_image_parts (svc_image service)")
  case (Inl e)
  with assms show ?thesis
    by (simp add: reconcile_service_def)
next
  case (Inr parts)
  then obtain img sha where parts: "get_image_parts (svc_image service) = Inr (img, sha)"
    by (cases parts) simp
  from reconcile_service_spares [OF assms parts, of "[]"]
  obtain es where "trace st' = (trace st @ [GetRegistryData img]) @ es"
    by (auto simp: spares_iff)
  with get_image_parts_fst [OF parts] show ?thesis
    by simp
qed

text \<open>
  Claim C7. When the resolver has a plan and the platform refuses the update call, the
  body of the loop ends after that call: the counters are unchanged and the only calls
  are the registry query and the update call (no reload, no counter call, no
  notification). The pass then goes on with the next service. Run on the failed
  service and a following one, the loop is the body run on the following service from
  the state the refusal left, and when that body returns, the registry query for the
  following service is the call right after the refused update. When the updates of
  all the services after the failed one are refused as well, the pass returns, with
  the counters unchanged, after one registry query and one update call for each
  service, in the order of the list.
\<close>

theorem failed_update_isolated:
  assumes "get_image_parts (svc_image service) = Inr (img, sha)"
    and "fst (get_updated_image p img sha st) = Some u"
    and "\<not> fst (service_update p service u (snd (get_registry_data p img (world st))))"
  shows "\<exists>st'. reconcile_service p cfg service services st = Some (Inr (services, st')) \<and>
           reconcile_loop p cfg (service # rest) services st =
             reconcile_loop p cfg rest services st' \<and>
           counters st' = counters st \<and>
           trace st' = trace st @ [GetRegistryData img, ServiceUpdate service u] \<and>
           reconcile_loop p cfg [service, following] services st =
             reconcile_service p cfg following services st' \<and>
           (\<forall>services2 st2.
              reconcile_service p cfg following services st' = Some (Inr (services2, st2)) \<longrightarrow>
              (\<exists>es. trace st2 =
                 trace st @ [GetRegistryData img, ServiceUpdate service u,
                   GetRegistryData (fst (spec_parse_reference (svc_image following)))] @ es)) \<and>
           ((\<forall>s \<in> set rest. \<exists>img2 sha2.
               get_image_parts (svc_image s) = Inr (img2, sha2) \<and>
               sha2 \<noteq> Some (digest img2) \<and>
               (\<forall>w. fst (get_registry_data p img2 w) = RegistryData (digest img2)) \<and>
               (\<forall>u2 w. \<not> fst (service_update p s u2 w))) \<longrightarrow>
            (\<exists>st2. reconcile_loop p cfg (service # rest) services st =
                     Some (Inr (services, st2)) \<and>
               counters st2 = counters st \<and>
               trace st2 = trace st' @
                 concat (map (\<lambda>s.
                   [GetRegistryData (fst (spec_parse_reference (svc_image s))),
                    ServiceUpdate s
                      (fst (spec_parse_reference (svc_image s)) @ ''@'' @
                       digest (fst (spec_parse_reference (svc_image s))))]) rest)))"
proof -
  let ?st1 = "snd (get_updated_image p img sha st)"
  let ?st2 = "snd (update_image p service u ?st1)"
  from assms(2) have g: "get_updated_image p img sha st = (Some u, ?st1)"
    by (cases "get_updated_image p img sha st") simp
  from assms(3) have "\<not> fst (service_update p service u (world ?st1))"
    by (simp add: get_updated_image_fields)
  with assms(1) g
  have step: "reconcile_service p cfg service services st = Some (Inr (services, ?st2))"
    by (rule reconcile_service_failed)
  have c: "counters ?st2 = counters st"
    by (simp add: update_image_fields get_updated_image_fields)
  have t: "trace ?st2 = trace st @ [GetRegistryData img, ServiceUpdate service u]"
    by (simp add: update_image_fields get_updated_image_fields)
  have two: "reconcile_loop p cfg [service, following] services st =
             reconcile_service p cfg following services ?st2"
    using step by (rule reconcile_loop_two)
  have nxt: "\<forall>services2 st2.
              reconcile_service p cfg following services ?st2 = Some (Inr (services2, st2)) \<longrightarrow>
              (\<exists>es. trace st2 =
                 trace st @ [GetRegistryData img, ServiceUpdate service u,
                   GetRegistryData (fst (spec_parse_reference (svc_image following)))] @ es)"
  proof (intro allI impI)
    fix services2 st2
    assume "reconcile_service p cfg following services ?st2 = Some (Inr (services2, st2))"
    from reconcile_service_first_call [OF this] t
    show "\<exists>es. trace st2 =
                 trace st @ [GetRegistryData img, ServiceUpdate service u,
                   GetRegistryData (fst (spec_parse_reference (svc_image following)))] @ es"
      by simp
  qed
  have fleet: "(\<forall>s \<in> set rest. \<exists>img2 sha2.
               get_image_parts (svc_image s) = Inr (img2, sha2) \<and>
               sha2 \<noteq> Some (digest img2) \<and>
               (\<forall>w. fst (get_registry_data p img2 w) = RegistryData (digest img2)) \<and>
               (\<forall>u2 w. \<not> fst (service_update p s u2 w))) \<longrightarrow>
            (\<exists>st2. reconcile_loop p cfg (service # rest) services st =
                     Some (Inr (services, st2)) \<and>
               counters st2 = counters st \<and>
               trace st2 = trace ?st2 @
                 concat (map (\<lambda>s.
                   [GetRegistryData (fst (spec_parse_reference (svc_image s))),
                    ServiceUpdate s
                      (fst (spec_parse_reference (svc_image s)) @ ''@'' @
                       digest (fst (spec_parse_reference (svc_image s))))]) rest))"
  proof
    assume "\<forall>s \<in> set rest. \<exists>img2 sha2.
               get_image_parts (svc_image s) = Inr (img2, sha2) \<and>
               sha2 \<noteq> Some (digest img2) \<and>
               (\<forall>w. fst (get_registry_data p img2 w) = RegistryData (digest img2)) \<and>
               (\<forall>u2 w. \<not> fst (service_update p s u2 w))"
    from reconcile_loop_all_refused [OF this, of cfg services ?st2] c
      reconcile_loop_step [OF step, of rest]
    show "\<exists>st2. reconcile_loop p cfg (service # rest) services st =
                     Some (Inr (services, st2)) \<and>
               counters st2 = counters st \<and>
               trace st2 = trace ?st2 @
                 concat (map (\<lambda>s.
                   [GetRegistryData (fst (spec_parse_reference (svc_image s))),
                    ServiceUpdate s
                      (fst (spec_parse_reference (svc_image s)) @ ''@'' @
                       digest (fst (spec_parse_reference (svc_image s))))]) rest)"
      by simp
  qed
  from step reconcile_loop_step [OF step, of rest] c t two nxt fleet
  show ?thesis
    by blast
qed

theorem failed_update_isolated_witness:
  "get_image_parts (svc_image svc_web) = Inr (''repo/app'', Some ''sha256:AAA'') \<and>
   fst (get_updated_image (platform_rolling (\<lambda>service. False) 0 0) ''repo/app''
          (Some ''sha256:AAA'') start_state) = Some ''repo/app@sha256:BBB'' \<and>
   \<not> fst (service_update (platform_rolling (\<lambda>service. False) 0 0) svc_web ''repo/app@sha256:BBB''
          (snd (get_registry_data (platform_rolling (\<lambda>service. False) 0 0) ''repo/app''
                  (world start_state)))) \<and>
   (\<exists>img2 sha2.
       get_image_parts (svc_image svc_api) = Inr (img2, sha2) \<and>
       sha2 \<noteq> Some ''sha256:BBB'' \<and>
       (\<forall>w. fst (get_registry_data (platform_rolling (\<lambda>service. False) 0 0) img2 w) =
              RegistryData ''sha256:BBB'') \<and>
       (\<forall>u2 w. \<not> fst (service_update (platform_rolling (\<lambda>service. False) 0 0) svc_api u2 w))) \<and>
   (\<exists>st'. reconcile_service (platform_rolling (\<lambda>service. False) 0 0) default_settings svc_web
            [svc_web, svc_api] start_state = Some (Inr ([svc_web, svc_api], st')) \<and>
          reconcile_loop (platform_rolling (\<lambda>service. False) 0 0) default_settings
            (svc_web # [svc_api]) [svc_web, svc_api] start_state =
          reconcile_loop (platform_rolling (\<lambda>service. False) 0 0) default_settings
            [svc_api] [svc_web, svc_api] st' \<and>
          counters st' = counters start_state \<and>
          trace st' = [GetRegistryData ''repo/app'', ServiceUpdate svc_web ''repo/app@sha256:BBB'']) \<and>
   (\<exists>st2. reconcile_loop (platform_rolling (\<lambda>service. False) 0 0) default_settings
            [svc_web, svc_api] [svc_web, svc_api] start_state =
            Some (Inr ([svc_web, svc_api], st2)) \<and>
          counters st2 = counters start_state \<and>
          trace st2 =
            [GetRegistryData ''repo/app'', ServiceUpdate svc_web ''repo/app@sha256:BBB'',
             GetRegistryData ''repo/api'', ServiceUpdate svc_api ''repo/api@sha256:BBB'']) \<and>
   (\<exists>st2. reconcile_loop (platform_rolling (\<lambda>service. svc_name service \<noteq> ''web'') 0 0)
            default_settings [svc_web, svc_api] [svc_web, svc_api] start_state =
            Some (Inr ([svc_web, svc_api], st2)) \<and>
          map (\<lambda>(service, u). svc_name service) (update_calls (trace st2)) = [''web'', ''api''] \<and>
          map service_name (notifications (trace st2)) = [''api''] \<and>
          counter_calls (trace st2) = [((''api'', ''a1a1a1'', ''a1a1''), 1)])"
proof -
  let ?p = "platform_rolling (\<lambda>service. False) 0 0"
  have m: "\<exists>st2. reconcile_loop (platform_rolling (\<lambda>service. svc_name service \<noteq> ''web'') 0 0)
            default_settings [svc_web, svc_api] [svc_web, svc_api] start_state =
            Some (Inr ([svc_web, svc_api], st2)) \<and>
          map (\<lambda>(service, u). svc_name service) (update_calls (trace st2)) = [''web'', ''api''] \<and>
          map service_name (notifications (trace st2)) = [''api''] \<and>
          counter_calls (trace st2) = [((''api'', ''a1a1a1'', ''a1a1''), 1)]"
    by (simp add: fixture_eval wait_updating.simps)
  have h1: "get_image_parts (svc_image svc_web) = Inr (''repo/app'', Some ''sha256:AAA'')"
    and h2: "fst (get_updated_image ?p ''repo/app'' (Some ''sha256:AAA'') start_state) =
             Some ''repo/app@sha256:BBB''"
    and h3: "\<not> fst (service_update ?p svc_web ''repo/app@sha256:BBB''
               (snd (get_registry_data ?p ''repo/app'' (world start_state))))"
    by (simp_all add: fixture_eval)
  have h4: "\<exists>img2 sha2.
       get_image_parts (svc_image svc_api) = Inr (img2, sha2) \<and>
       sha2 \<noteq> Some ''sha256:BBB'' \<and>
       (\<forall>w. fst (get_registry_data ?p img2 w) = RegistryData ''sha256:BBB'') \<and>
       (\<forall>u2 w. \<not> fst (service_update ?p svc_api u2 w))"
    by (simp add: fixture_eval)
  have e: "fst (spec_parse_reference (svc_image svc_api)) = ''repo/api''"
    by (simp add: fixture_eval)
  have t: "trace start_state = []"
    by (simp add: start_state_def)
  from failed_update_isolated [where cfg = default_settings
      and services = "[svc_web, svc_api]" and rest = "[svc_api]" and following = svc_api
      and digest = "\<lambda>i. ''sha256:BBB''", OF h1 h2 h3]
  obtain st' where
    a1: "reconcile_service ?p default_settings svc_web [svc_web, svc_api] start_state =
         Some (Inr ([svc_web, svc_api], st'))" and
    a2: "reconcile_loop ?p default_settings (svc_web # [svc_api]) [svc_web, svc_api] start_state =
         reconcile_loop ?p default_settings [svc_api] [svc_web, svc_api] st'" and
    a3: "counters st' = counters start_state" and
    a4: "trace st' = trace start_state @
           [GetRegistryData ''repo/app'', ServiceUpdate svc_web ''repo/app@sha256:BBB'']" and
    a5: "(\<forall>s \<in> set [svc_api]. \<exists>img2 sha2.
               get_image_parts (svc_image s) = Inr (img2, sha2) \<and>
               sha2 \<noteq> Some ''sha256:BBB'' \<and>
               (\<forall>w. fst (get_registry_data ?p img2 w) = RegistryData ''sha256:BBB'') \<and>
               (\<forall>u2 w. \<not> fst (service_update ?p s u2 w))) \<longrightarrow>
            (\<exists>st2. reconcile_loop ?p default_settings (svc_web # [svc_api]) [svc_web, svc_api]
                     start_state = Some (Inr ([svc_web, svc_api], st2)) \<and>
               counters st2 = counters start_state \<and>
               trace st2 = trace st' @
                 concat (map (\<lambda>s.
                   [GetRegistryData (fst (spec_parse_reference (svc_image s))),
                    ServiceUpdate s
                      (fst (spec_parse_reference (svc_image s)) @ ''@'' @ ''sha256:BBB'')])
                   [svc_api]))"
    by blast
  from a5 h4 obtain st2 where
    b1: "reconcile_loop ?p default_settings [svc_web, svc_api] [svc_web, svc_api]
           start_state = Some (Inr ([svc_web, svc_api], st2))" and
    b2: "counters st2 = counters start_state" and
    b3: "trace st2 = trace st' @
           [GetRegistryData ''repo/api'', ServiceUpdate svc_api ''repo/api@sha256:BBB'']"
    by (auto simp: e)
  from a4 b3 t have
    a4': "trace st' = [GetRegistryData ''repo/app'', ServiceUpdate svc_web ''repo/app@sha256:BBB'']"
    and b3': "trace st2 =
            [GetRegistryData ''repo/app'', ServiceUpdate svc_web ''repo/app@sha256:BBB'',
             GetRegistryData ''repo/api'', ServiceUpdate svc_api ''repo/api@sha256:BBB'']"
    by simp_all
  from h1 h2 h3 h4 a1 a2 a3 a4' b1 b2 b3' m show ?thesis
    by blast
qed

text \<open>
  Claim C8. When the registry query raises APIError, the resolver returns no plan, the
  body of the loop makes no other call and leaves the counters as they were, and the
  loop goes on with the next service. Nothing of the failure is kept: whenever the
  body runs again for the service it queries the registry again, and a reply with
  another digest than the pinned one gives the plan.
\<close>

theorem registry_failure_skips:
  assumes "get_image_parts (svc_image service) = Inr (img, sha)"
    and "fst (get_registry_data p img (world st)) = APIError"
  shows "fst (get_updated_image p img sha st) = None \<and>
         (\<exists>st'. reconcile_service p cfg service services st = Some (Inr (services, st')) \<and>
                reconcile_loop p cfg (service # rest) services st =
                  reconcile_loop p cfg rest services st' \<and>
                counters st' = counters st \<and>
                trace st' = trace st @ [GetRegistryData img]) \<and>
         (\<forall>services2 st2 services3 st3.
            reconcile_service p cfg service services2 st2 = Some (Inr (services3, st3)) \<longrightarrow>
            registry_calls (trace st3) = registry_calls (trace st2) @ [img]) \<and>
         (\<forall>st2 d. fst (get_registry_data p img (world st2)) = RegistryData d \<and> sha \<noteq> Some d \<longrightarrow>
            fst (get_updated_image p img sha st2) = Some (img @ ''@'' @ d))"
proof -
  let ?st1 = "snd (get_updated_image p img sha st)"
  from assms(2) have none: "fst (get_updated_image p img sha st) = None"
    by (rule get_updated_image_APIError)
  with assms(1)
  have step: "reconcile_service p cfg service services st = Some (Inr (services, ?st1))"
    by (rule reconcile_service_no_plan)
  have "counters ?st1 = counters st" and "trace ?st1 = trace st @ [GetRegistryData img]"
    by (simp_all add: get_updated_image_fields)
  with step reconcile_loop_step [OF step]
  have a: "\<exists>st'. reconcile_service p cfg service services st = Some (Inr (services, st')) \<and>
                reconcile_loop p cfg (service # rest) services st =
                  reconcile_loop p cfg rest services st' \<and>
                counters st' = counters st \<and>
                trace st' = trace st @ [GetRegistryData img]"
    by blast
  have b: "\<forall>services2 st2 services3 st3.
            reconcile_service p cfg service services2 st2 = Some (Inr (services3, st3)) \<longrightarrow>
            registry_calls (trace st3) = registry_calls (trace st2) @ [img]"
    using reconcile_service_registry_calls [OF _ assms(1)] by blast
  have c: "\<forall>st2 d. fst (get_registry_data p img (world st2)) = RegistryData d \<and> sha \<noteq> Some d \<longrightarrow>
            fst (get_updated_image p img sha st2) = Some (img @ ''@'' @ d)"
    using get_updated_image_differs by blast
  from none a b c show ?thesis by blast
qed

theorem registry_failure_skips_witness:
  "get_image_parts (svc_image svc_web) = Inr (''repo/app'', Some ''sha256:AAA'') \<and>
   fst (get_registry_data (platform_rolling (\<lambda>service. True) 1 0) ''repo/app''
          (world start_state)) = APIError \<and>
   fst (get_updated_image (platform_rolling (\<lambda>service. True) 1 0) ''repo/app''
          (Some ''sha256:AAA'') start_state) = None \<and>
   (\<exists>st'. reconcile_service (platform_rolling (\<lambda>service. True) 1 0) default_settings svc_web
            [svc_web, svc_api] start_state = Some (Inr ([svc_web, svc_api], st')) \<and>
          reconcile_loop (platform_rolling (\<lambda>service. True) 1 0) default_settings
            (svc_web # [svc_api]) [svc_web, svc_api] start_state =
          reconcile_loop (platform_rolling (\<lambda>service. True) 1 0) default_settings
            [svc_api] [svc_web, svc_api] st' \<and>
          counters st' = counters start_state \<and>
          trace st' = [GetRegistryData ''repo/app'']) \<and>
   fst (get_registry_data (platform_rolling (\<lambda>service. True) 1 0) ''repo/app''
          (world (start_state\<lparr>world := start_world\<lparr>queried := 1\<rparr>\<rparr>))) =
     RegistryData ''sha256:BBB'' \<and>
   Some ''sha256:AAA'' \<noteq> Some ''sha256:BBB'' \<and>
   fst (get_updated_image (platform_rolling (\<lambda>service. True) 1 0) ''repo/app''
          (Some ''sha256:AAA'') (start_state\<lparr>world := start_world\<lparr>queried := 1\<rparr>\<rparr>)) =
     Some ''repo/app@sha256:BBB'' \<and>
   (\<exists>st'. run (platform_rolling (\<lambda>service. True) 1 0)
            \<lparr>self_settings = default_settings, self_sleep = 5, self_sleep_type = Minutes\<rparr> 2 start_state =
            Some (Inr st') \<and>
          registry_calls (trace st') = [''repo/app'', ''repo/api'', ''repo/app'', ''repo/api''] \<and>
          map (\<lambda>(service, u). svc_name service) (update_calls (trace st')) =
            [''api'', ''web'', ''api''])"
proof -
  have h: "get_image_parts (svc_image svc_web) = Inr (''repo/app'', Some ''sha256:AAA'') \<and>
   fst (get_registry_data (platform_rolling (\<lambda>service. True) 1 0) ''repo/app''
          (world start_state)) = APIError \<and>
   fst (get_registry_data (platform_rolling (\<lambda>service. True) 1 0) ''repo/app''
          (world (start_state\<lparr>world := start_world\<lparr>queried := 1\<rparr>\<rparr>))) =
     RegistryData ''sha256:BBB'' \<and>
   fst (get_updated_image (platform_rolling (\<lambda>service. True) 1 0) ''repo/app''
          (Some ''sha256:AAA'') (start_state\<lparr>world := start_world\<lparr>queried := 1\<rparr>\<rparr>)) =
     Some ''repo/app@sha256:BBB''"
    by (simp add: fixture_eval)
  have t: "trace start_state = []"
    by (simp add: start_state_def)
  have r: "\<exists>st'. run (platform_rolling (\<lambda>service. True) 1 0)
            \<lparr>self_settings = default_settings, self_sleep = 5, self_sleep_type = Minutes\<rparr> 2 start_state =
            Some (Inr st') \<and>
          registry_calls (trace st') = [''repo/app'', ''repo/api'', ''repo/app'', ''repo/api''] \<and>
          map (\<lambda>(service, u). svc_name service) (update_calls (trace st')) =
            [''api'', ''web'', ''api'']"
    by (simp add: numeral_2_eq_2 fixture_eval wait_updating.simps blacklist_scan.simps)
  from h r registry_failure_skips [of svc_web "''repo/app''" "Some ''sha256:AAA''"
      "platform_rolling (\<lambda>service. True) 1 0" start_state default_settings
      "[svc_web, svc_api]" "[svc_api]"]
  show ?thesis
    by (simp add: t)
qed

lemma reconcile_service_at_most_once:
  assumes "reconcile_service p cfg service services st = Some (Inr (services', st'))"
  shows "(counters st' = counters st \<and>
          counter_calls (trace st') = counter_calls (trace st) \<and>
          notifications (trace st') = notifications (trace st)) \<or>
         (\<exists>l n. fst l = svc_name service \<and> service_name n = svc_name service \<and>
            counters st' = (counters st)(l \<mapsto> counter_value st l + 1) \<and>
            counter_calls (trace st') = counter_calls (trace st) @ [(l, 1)] \<and>
            notifications (trace st') = notifications (trace st) @ [n])"
proof (cases "get_image_parts (svc_image service)")
  case (Inl e)
  with assms show ?thesis
    by (simp add: reconcile_service_def)
next
  case (Inr parts)
  obtain img sha where parts: "get_image_parts (svc_image service) = Inr (img, sha)"
    using Inr by (cases parts) simp
  obtain upd st1 where g: "get_updated_image p img sha st = (upd, st1)"
    by (cases "get_updated_image p img sha st")
  then have st1: "st1 = snd (get_updated_image p img sha st)"
    by simp
  have q1: "counters st1 = counters st \<and> counter_calls (trace st1) = counter_calls (trace st) \<and>
            notifications (trace st1) = notifications (trace st)"
    by (simp add: st1 get_updated_image_fields observe_append)
  show ?thesis
  proof (cases upd)
    case None
    with assms parts g have "st' = st1"
      by (simp add: reconcile_service_def)
    with q1 show ?thesis by simp
  next
    case (Some u)
    obtain ok st2 where up: "update_image p service u st1 = (ok, st2)"
      by (cases "update_image p service u st1")
    then have st2: "st2 = snd (update_image p service u st1)"
      by simp
    have q2: "counters st2 = counters st \<and> counter_calls (trace st2) = counter_calls (trace st) \<and>
              notifications (trace st2) = notifications (trace st)"
      using q1 by (simp add: st2 update_image_fields observe_append)
    show ?thesis
    proof (cases ok)
      case False
      with assms parts g Some up have "st' = st2"
        by (simp add: reconcile_service_def)
      with q2 show ?thesis by simp
    next
      case True
      with assms parts g Some up obtain service' st3 where
        w: "wait_updating p cfg service services st2 = Some (service', services', st3)" and
        st': "st' = notify_updated cfg (svc_name service) (svc_image service) service' st3"
        by (auto simp: reconcile_service_def split: option.splits)
      note q = wait_updating_quiet [OF w]
      let ?l = "(svc_name service, svc_id service', svc_short_id service')"
      let ?n = "\<lparr>service_name = svc_name service, service_short_id = svc_short_id service',
              old_image = (if notify_include_old_image cfg then Some (svc_image service) else None),
              new_image = (if notify_include_new_image cfg then Some (svc_image service') else None)\<rparr>"
      have c3: "counters st3 = counters st"
        using q(1) q2 by simp
      then have v: "counter_value st3 ?l = counter_value st ?l"
        by (simp add: counter_value_def)
      have "fst ?l = svc_name service \<and> service_name ?n = svc_name service \<and>
            counters st' = (counters st)(?l \<mapsto> counter_value st ?l + 1) \<and>
            counter_calls (trace st') = counter_calls (trace st) @ [(?l, 1)] \<and>
            notifications (trace st') = notifications (trace st) @ [?n]"
        using c3 v q(3,4) q2 by (simp add: st' notify_updated_fields observe_append)
      then show ?thesis by blast
    qed
  qed
qed

text \<open>
  Claim C6. When the resolver has a plan, the platform accepts the update call and the
  reloads report \<open>updating\<close> \<open>n\<close> times before they report another state or that the
  service is gone, the body of the loop returns, after \<open>n + 1\<close> reloads, with one update
  call, one counter call, of amount 1, that raises the counter of the service by 1,
  and one notification, whatever \<open>n\<close> is. And whenever the body returns, it has made
  no counter call and no notification, or one of each for the service.
\<close>

theorem update_counted_once:
  assumes "get_image_parts (svc_image service) = Inr (img, sha)"
    and "fst (get_updated_image p img sha st) = Some u"
    and "fst (service_update p service u (snd (get_registry_data p img (world st))))"
    and "settles p service
           (snd (service_update p service u (snd (get_registry_data p img (world st))))) n"
  shows "(\<exists>(service' :: service) services' st'.
           reconcile_service p cfg service services st = Some (Inr (services', st')) \<and>
           counters st' =
             (counters st)((svc_name service, svc_id service', svc_short_id service') \<mapsto>
                counter_value st (svc_name service, svc_id service', svc_short_id service') + 1) \<and>
           counter_calls (trace st') =
             counter_calls (trace st) @
             [((svc_name service, svc_id service', svc_short_id service'), 1)] \<and>
           notifications (trace st') =
             notifications (trace st) @
             [\<lparr>service_name = svc_name service, service_short_id = svc_short_id service',
               old_image = (if notify_include_old_image cfg then Some (svc_image service) else None),
               new_image = (if notify_include_new_image cfg then Some (svc_image service') else None)\<rparr>] \<and>
           update_calls (trace st') = update_calls (trace st) @ [(service, u)] \<and>
           length (reload_calls (trace st')) = length (reload_calls (trace st)) + Suc n) \<and>
         (\<forall>services2 st2 services3 st3.
            reconcile_service p cfg service services2 st2 = Some (Inr (services3, st3)) \<longrightarrow>
            (counters st3 = counters st2 \<and>
             counter_calls (trace st3) = counter_calls (trace st2) \<and>
             notifications (trace st3) = notifications (trace st2)) \<or>
            (\<exists>l n. fst l = svc_name service \<and> service_name n = svc_name service \<and>
               counters st3 = (counters st2)(l \<mapsto> counter_value st2 l + 1) \<and>
               counter_calls (trace st3) = counter_calls (trace st2) @ [(l, 1)] \<and>
               notifications (trace st3) = notifications (trace st2) @ [n]))"
proof -
  let ?st1 = "snd (get_updated_image p img sha st)"
  let ?st2 = "snd (update_image p service u ?st1)"
  from assms(2) have g: "get_updated_image p img sha st = (Some u, ?st1)"
    by (cases "get_updated_image p img sha st") simp
  from assms(3) have ok: "fst (service_update p service u (world ?st1))"
    by (simp add: get_updated_image_fields)
  from assms(4) have "settles p service (world ?st2) n"
    by (simp add: update_image_fields get_updated_image_fields)
  from wait_updating_settles [OF this, of cfg services] obtain service' services' st3 where
    w: "wait_updating p cfg service services ?st2 = Some (service', services', st3)" and
    l: "length (reload_calls (trace st3)) = length (reload_calls (trace ?st2)) + Suc n"
    by blast
  let ?st4 = "notify_updated cfg (svc_name service) (svc_image service) service' st3"
  let ?l = "(svc_name service, svc_id service', svc_short_id service')"
  have step: "reconcile_service p cfg service services st = Some (Inr (services', ?st4))"
    using assms(1) g ok w by (rule reconcile_service_updated)
  note q = wait_updating_quiet [OF w]
  have c3: "counters st3 = counters st"
    using q(1) by (simp add: update_image_fields get_updated_image_fields)
  then have v: "counter_value st3 ?l = counter_value st ?l"
    by (simp add: counter_value_def)
  have "counters ?st4 = (counters st)(?l \<mapsto> counter_value st ?l + 1)"
    using c3 v by (simp add: notify_updated_fields)
  moreover have "counter_calls (trace ?st4) = counter_calls (trace st) @ [(?l, 1)]"
    using q(4) by (simp add: notify_updated_fields update_image_fields get_updated_image_fields
        observe_append)
  moreover have "notifications (trace ?st4) =
             notifications (trace st) @
             [\<lparr>service_name = svc_name service, service_short_id = svc_short_id service',
               old_image = (if notify_include_old_image cfg then Some (svc_image service) else None),
               new_image = (if notify_include_new_image cfg then Some (svc_image service') else None)\<rparr>]"
    using q(3) by (simp add: notify_updated_fields update_image_fields get_updated_image_fields
        observe_append)
  moreover have "update_calls (trace ?st4) = update_calls (trace st) @ [(service, u)]"
    using q(2) by (simp add: notify_updated_fields update_image_fields get_updated_image_fields
        observe_append)
  moreover have "length (reload_calls (trace ?st4)) = length (reload_calls (trace st)) + Suc n"
    using l by (simp add: notify_updated_fields update_image_fields get_updated_image_fields
        observe_append)
  ultimately have "reconcile_service p cfg service services st = Some (Inr (services', ?st4)) \<and>
           counters ?st4 = (counters st)(?l \<mapsto> counter_value st ?l + 1) \<and>
           counter_calls (trace ?st4) = counter_calls (trace st) @ [(?l, 1)] \<and>
           notifications (trace ?st4) =
             notifications (trace st) @
             [\<lparr>service_name = svc_name service, service_short_id = svc_short_id service',
               old_image = (if notify_include_old_image cfg then Some (svc_image service) else None),
               new_image = (if notify_include_new_image cfg then Some (svc_image service') else None)\<rparr>] \<and>
           update_calls (trace ?st4) = update_calls (trace st) @ [(service, u)] \<and>
           length (reload_calls (trace ?st4)) = length (reload_calls (trace st)) + Suc n"
    using step by blast
  then have first: "\<exists>(service' :: service) services' st'.
           reconcile_service p cfg service services st = Some (Inr (services', st')) \<and>
           counters st' =
             (counters st)((svc_name service, svc_id service', svc_short_id service') \<mapsto>
                counter_value st (svc_name service, svc_id service', svc_short_id service') + 1) \<and>
           counter_calls (trace st') =
             counter_calls (trace st) @
             [((svc_name service, svc_id service', svc_short_id service'), 1)] \<and>
           notifications (trace st') =
             notifications (trace st) @
             [\<lparr>service_name = svc_name service, service_short_id = svc_short_id service',
               old_image = (if notify_include_old_image cfg then Some (svc_image service) else None),
               new_image = (if notify_include_new_image cfg then Some (svc_image service') else None)\<rparr>] \<and>
           update_calls (trace st') = update_calls (trace st) @ [(service, u)] \<and>
           length (reload_calls (trace st')) = length (reload_calls (trace st)) + Suc n"
    by (intro exI, assumption)
  have second: "\<forall>services2 st2 services3 st3.
            reconcile_service p cfg service services2 st2 = Some (Inr (services3, st3)) \<longrightarrow>
            (counters st3 = counters st2 \<and>
             counter_calls (trace st3) = counter_calls (trace st2) \<and>
             notifications (trace st3) = notifications (trace st2)) \<or>
            (\<exists>l n. fst l = svc_name service \<and> service_name n = svc_name service \<and>
               counters st3 = (counters st2)(l \<mapsto> counter_value st2 l + 1) \<and>
               counter_calls (trace st3) = counter_calls (trace st2) @ [(l, 1)] \<and>
               notifications (trace st3) = notifications (trace st2) @ [n])"
    using reconcile_service_at_most_once by blast
  from first second show ?thesis
    by (rule conjI)
qed

theorem update_counted_once_witness:
  "get_image_parts (svc_image svc_web) = Inr (''repo/app'', Some ''sha256:AAA'') \<and>
   fst (get_updated_image (platform_rolling (\<lambda>service. True) 0 2) ''repo/app''
          (Some ''sha256:AAA'') start_state) = Some ''repo/app@sha256:BBB'' \<and>
   fst (service_update (platform_rolling (\<lambda>service. True) 0 2) svc_web ''repo/app@sha256:BBB''
          (snd (get_registry_data (platform_rolling (\<lambda>service. True) 0 2) ''repo/app''
                  (world start_state)))) \<and>
   settles (platform_rolling (\<lambda>service. True) 0 2) svc_web
     (snd (service_update (platform_rolling (\<lambda>service. True) 0 2) svc_web ''repo/app@sha256:BBB''
          (snd (get_registry_data (platform_rolling (\<lambda>service. True) 0 2) ''repo/app''
                  (world start_state))))) 2 \<and>
   (\<exists>st'. reconcile_service (platform_rolling (\<lambda>service. True) 0 2) default_settings svc_web
            [svc_web, svc_api] start_state = Some (Inr ([svc_web, svc_api], st')) \<and>
          counters st' = [(''web'', ''w1w1w1'', ''w1w1'') \<mapsto> 1] \<and>
          counter_calls (trace st') = [((''web'', ''w1w1w1'', ''w1w1''), 1)] \<and>
          map service_name (notifications (trace st')) = [''web''] \<and>
          update_calls (trace st') = [(svc_web, ''repo/app@sha256:BBB'')] \<and>
          length (reload_calls (trace st')) = 3)"
proof -
  have h: "get_image_parts (svc_image svc_web) = Inr (''repo/app'', Some ''sha256:AAA'') \<and>
   fst (get_updated_image (platform_rolling (\<lambda>service. True) 0 2) ''repo/app''
          (Some ''sha256:AAA'') start_state) = Some ''repo/app@sha256:BBB'' \<and>
   fst (service_update (platform_rolling (\<lambda>service. True) 0 2) svc_web ''repo/app@sha256:BBB''
          (snd (get_registry_data (platform_rolling (\<lambda>service. True) 0 2) ''repo/app''
                  (world start_state)))) \<and>
   settles (platform_rolling (\<lambda>service. True) 0 2) svc_web
     (snd (service_update (platform_rolling (\<lambda>service. True) 0 2) svc_web ''repo/app@sha256:BBB''
          (snd (get_registry_data (platform_rolling (\<lambda>service. True) 0 2) ''repo/app''
                  (world start_state))))) 2"
    by (simp add: numeral_2_eq_2 fixture_eval)
  from h update_counted_once [of svc_web "''repo/app''" "Some ''sha256:AAA''"
      "platform_rolling (\<lambda>service. True) 0 2" start_state "''repo/app@sha256:BBB''" 2
      default_settings "[svc_web, svc_api]"]
  show ?thesis
    by (simp add: numeral_2_eq_2 fixture_eval wait_updating.simps)
qed

section \<open>The loops and the variable \<open>services\<close>\<close>

lemma wait_updating_other_services:
  assumes "wait_updating p cfg service services1 st = Some r"
  shows "\<exists>services'. wait_updating p cfg service services2 st = Some (fst r, services', snd (snd r))"
proof -
  let ?Q = "\<lambda>(p :: 'a platform) cfg service (st :: 'a state)
              (r :: service \<times> service list \<times> 'a state).
         \<forall>services2. \<exists>services'.
           wait_updating p cfg service services2 st = Some (fst r, services', snd (snd r))"
  have "?Q p cfg service st r"
  proof (rule wait_updating.raw_induct
      [where P = "\<lambda>p cfg service services. ?Q p cfg service", OF _ assms])
    fix wait :: "'a platform \<Rightarrow> settings \<Rightarrow> service \<Rightarrow> service list \<Rightarrow> 'a state \<Rightarrow>
                 (service \<times> service list \<times> 'a state) option"
      and p cfg service services st r
    assume IH: "\<And>p cfg service services st r.
                  wait p cfg service services st = Some r \<Longrightarrow> ?Q p cfg service st r"
      and step: "(case service_reload p service (world st) of
        (reply, w) \<Rightarrow>
          (case reply of
             NotFound \<Rightarrow>
               (case get_services p cfg (emit (ServiceReload service) (st\<lparr>world := w\<rparr>)) of
                  (services', st') \<Rightarrow> Some (service, services', st'))
           | Reloaded service' \<Rightarrow>
               if svc_update_state service' = Some ''updating''
               then wait p cfg service' services
                      (emit (PauseSeconds 1) (emit (ServiceReload service) (st\<lparr>world := w\<rparr>)))
               else Some (service', services, emit (ServiceReload service) (st\<lparr>world := w\<rparr>)))) =
        Some r"
    obtain reply w where rw: "service_reload p service (world st) = (reply, w)"
      by (cases "service_reload p service (world st)")
    show "?Q p cfg service st r"
    proof (cases reply)
      case NotFound
      obtain svcs st1 where g:
        "get_services p cfg (emit (ServiceReload service) (st\<lparr>world := w\<rparr>)) = (svcs, st1)"
        by (cases "get_services p cfg (emit (ServiceReload service) (st\<lparr>world := w\<rparr>))")
      from step rw NotFound g have r: "r = (service, svcs, st1)"
        by simp
      have "wait_updating p cfg service services2 st = Some (service, svcs, st1)" for services2
        by (subst wait_updating.simps) (simp add: rw NotFound g)
      with r show ?thesis by simp
    next
      case (Reloaded s')
      show ?thesis
      proof (cases "svc_update_state s' = Some ''updating''")
        case True
        let ?st1 = "emit (PauseSeconds 1) (emit (ServiceReload service) (st\<lparr>world := w\<rparr>))"
        from True step rw Reloaded have "wait p cfg s' services ?st1 = Some r"
          by simp
        from IH [OF this] have inner: "\<forall>services2. \<exists>services'.
           wait_updating p cfg s' services2 ?st1 = Some (fst r, services', snd (snd r))" .
        have "wait_updating p cfg service services2 st = wait_updating p cfg s' services2 ?st1"
          for services2
          by (subst wait_updating.simps) (simp add: rw Reloaded True)
        with inner show ?thesis by simp
      next
        case False
        let ?st1 = "emit (ServiceReload service) (st\<lparr>world := w\<rparr>)"
        from False step rw Reloaded have r: "r = (s', services, ?st1)"
          by auto
        have "wait_updating p cfg service services2 st = Some (s', services2, ?st1)" for services2
          by (subst wait_updating.simps) (simp add: rw Reloaded False)
        with r show ?thesis by simp
      qed
    qed
  qed
  then show ?thesis by blast
qed

lemma wait_updating_ignores_services:
  "map_option (\<lambda>r. (fst r, snd (snd r))) (wait_updating p cfg service services1 st) =
   map_option (\<lambda>r. (fst r, snd (snd r))) (wait_updating p cfg service services2 st)"
proof (cases "wait_updating p cfg service services1 st")
  case None
  have "wait_updating p cfg service services2 st = None"
  proof (rule ccontr)
    assume "wait_updating p cfg service services2 st \<noteq> None"
    then obtain r where "wait_updating p cfg service services2 st = Some r"
      by auto
    from wait_updating_other_services [OF this, of services1] None show False
      by simp
  qed
  with None show ?thesis by simp
next
  case (Some r)
  from wait_updating_other_services [OF this, of services2] Some show ?thesis
    by auto
qed

lemma reconcile_service_ignores_services:
  "map_option (map_sum id snd) (reconcile_service p cfg service services1 st) =
   map_option (map_sum id snd) (reconcile_service p cfg service services2 st)"
proof (cases "get_image_parts (svc_image service)")
  case (Inl e)
  then show ?thesis
    by (simp add: reconcile_service_def)
next
  case (Inr parts)
  obtain img sha where parts: "parts = (img, sha)"
    by (cases parts)
  obtain upd st1 where g: "get_updated_image p img sha st = (upd, st1)"
    by (cases "get_updated_image p img sha st")
  obtain ok st2 where u:
    "(case upd of None \<Rightarrow> (False, st1) | Some u \<Rightarrow> update_image p service u st1) = (ok, st2)"
    by (cases "case upd of None \<Rightarrow> (False, st1) | Some u \<Rightarrow> update_image p service u st1")
  show ?thesis
  proof (cases ok)
    case False
    with Inr parts g u show ?thesis
      by (simp add: reconcile_service_def)
  next
    case True
    from wait_updating_ignores_services [of p cfg service services1 st2 services2]
    have "(wait_updating p cfg service services1 st2 = None \<and>
           wait_updating p cfg service services2 st2 = None) \<or>
          (\<exists>s' sv1 sv2 st3. wait_updating p cfg service services1 st2 = Some (s', sv1, st3) \<and>
             wait_updating p cfg service services2 st2 = Some (s', sv2, st3))"
      by (cases "wait_updating p cfg service services1 st2";
          cases "wait_updating p cfg service services2 st2") auto
    with True Inr parts g u show ?thesis
      by (auto simp: reconcile_service_def)
  qed
qed

lemma reconcile_loop_ignores_services:
  "map_option (map_sum id snd) (reconcile_loop p cfg svcs services1 st) =
   map_option (map_sum id snd) (reconcile_loop p cfg svcs services2 st)"
proof (induction svcs arbitrary: services1 services2 st)
  case Nil
  show ?case by simp
next
  case (Cons service rest)
  from reconcile_service_ignores_services [of p cfg service services1 st services2]
  consider "reconcile_service p cfg service services1 st = None"
      "reconcile_service p cfg service services2 st = None"
    | e where "reconcile_service p cfg service services1 st = Some (Inl e)"
      "reconcile_service p cfg service services2 st = Some (Inl e)"
    | sv1 sv2 st' where "reconcile_service p cfg service services1 st = Some (Inr (sv1, st'))"
      "reconcile_service p cfg service services2 st = Some (Inr (sv2, st'))"
    by (cases "reconcile_service p cfg service services1 st";
        cases "reconcile_service p cfg service services2 st")
       (auto simp: map_sum_def split: sum.splits)
  then show ?case
  proof cases
    case 1
    then show ?thesis by simp
  next
    case 2
    then show ?thesis by simp
  next
    case 3
    with Cons.IH [of sv1 st' sv2] show ?thesis by simp
  qed
qed

lemma prime_loop_ignores_services:
  "snd (prime_loop p cfg svcs services1 st) = snd (prime_loop p cfg svcs services2 st)"
proof (induction svcs arbitrary: services1 services2 st)
  case Nil
  show ?case by simp
next
  case (Cons service rest)
  show ?case
    by (simp add: Cons.IH [of services1 _ services2] split: prod.splits)
qed

text \<open>
  Claim C1. The reconciliation pass never reads the variable \<open>services\<close>: what it does
  and the state it ends in are the same whatever list the variable holds. On
  \<open>platform_vanish\<close>, \<open>api\<close> and \<open>db\<close> are listed; \<open>api\<close> is updated and is gone at its
  first reload. It is counted and notified as updated and the services are listed
  again: the variable \<open>services\<close> is then the refreshed list, \<open>web\<close>. The loop goes on
  over the list it was started on: \<open>db\<close>, which the refreshed list does not hold, is
  queried, updated and notified, and \<open>web\<close> is never looked at.
\<close>

theorem vanished_service_stale_iteration:
  "map_option (map_sum id snd) (reconcile_loop p cfg svcs services1 st) =
   map_option (map_sum id snd) (reconcile_loop p cfg svcs services2 st) \<and>
   (\<exists>st'. run_cycle platform_vanish default_settings start_state = Some (Inr ([svc_web], st')) \<and>
     list_calls (trace st') = 2 \<and>
     registry_calls (trace st') = [''repo/api'', ''repo/db''] \<and>
     map (\<lambda>(service, u). svc_name service) (update_calls (trace st')) = [''api'', ''db''] \<and>
     map service_name (notifications (trace st')) = [''api'', ''db''])"
proof
  show "map_option (map_sum id snd) (reconcile_loop p cfg svcs services1 st) =
        map_option (map_sum id snd) (reconcile_loop p cfg svcs services2 st)"
    by (rule reconcile_loop_ignores_services)
next
  show "\<exists>st'. run_cycle platform_vanish default_settings start_state = Some (Inr ([svc_web], st')) \<and>
     list_calls (trace st') = 2 \<and>
     registry_calls (trace st') = [''repo/api'', ''repo/db''] \<and>
     map (\<lambda>(service, u). svc_name service) (update_calls (trace st')) = [''api'', ''db''] \<and>
     map service_name (notifications (trace st')) = [''api'', ''db'']"
    by (simp add: fixture_eval wait_updating.simps blacklist_scan.simps)
qed

section \<open>The priming pass\<close>




section \<open>The blacklist\<close>

text \<open>
  On a listing whose ids and names are pairwise distinct, the two loops of
  \<open>get_services\<close> remove exactly the services whose name is in the blacklist.
\<close>

lemma blacklist_scan_none:
  "\<forall>s \<in> set services. svc_name s \<noteq> b \<Longrightarrow> blacklist_scan b services i = services"
proof (induction b services i rule: blacklist_scan.induct)
  case (1 b services i)
  show ?case
  proof (cases "i < length services")
    case True
    with "1.prems" have ne: "svc_name (services ! i) \<noteq> b"
      by simp
    from "1.IH"(2) [OF True ne "1.prems"] True ne show ?thesis
      by (subst blacklist_scan.simps) simp
  next
    case False
    then show ?thesis
      by (subst blacklist_scan.simps) simp
  qed
qed

lemma list_remove_filter:
  assumes "distinct (map svc_id services)" and "distinct (map svc_name services)"
    and "x \<in> set services"
  shows "list_remove x services = filter (\<lambda>s. svc_name s \<noteq> svc_name x) services"
  using assms
proof (induction services)
  case Nil
  then show ?case by simp
next
  case (Cons y ys)
  show ?case
  proof (cases "svc_id y = svc_id x")
    case True
    have xy: "x = y"
    proof (rule ccontr)
      assume "x \<noteq> y"
      with Cons.prems(3) have "x \<in> set ys" by simp
      then have "svc_id x \<in> svc_id ` set ys" by simp
      with Cons.prems(1) True show False by simp
    qed
    from Cons.prems(2) have "svc_name y \<notin> svc_name ` set ys"
      by simp
    then have "\<forall>s \<in> set ys. svc_name s \<noteq> svc_name y"
      by (metis imageI)
    then have "filter (\<lambda>s. svc_name s \<noteq> svc_name y) ys = ys"
      by simp
    with True xy show ?thesis by simp
  next
    case False
    then have "x \<noteq> y" by auto
    with Cons.prems(3) have x: "x \<in> set ys" by simp
    then have "svc_name x \<in> svc_name ` set ys" by simp
    with Cons.prems(2) have ne: "svc_name y \<noteq> svc_name x" by auto
    from Cons.prems have "distinct (map svc_id ys)" and "distinct (map svc_name ys)"
      by simp_all
    from Cons.IH [OF this x] False ne show ?thesis by simp
  qed
qed

lemma blacklist_scan_filter:
  assumes "distinct (map svc_id services)" and "distinct (map svc_name services)"
    and "\<forall>j. j < i \<and> j < length services \<longrightarrow> svc_name (services ! j) \<noteq> b"
  shows "blacklist_scan b services i = filter (\<lambda>s. svc_name s \<noteq> b) services"
  using assms
proof (induction b services i rule: blacklist_scan.induct)
  case (1 b services i)
  show ?case
  proof (cases "i < length services")
    case False
    with "1.prems"(3) have "\<forall>j < length services. svc_name (services ! j) \<noteq> b"
      by simp
    then have "\<forall>s \<in> set services. svc_name s \<noteq> b"
      by (auto simp: in_set_conv_nth)
    then have "filter (\<lambda>s. svc_name s \<noteq> b) services = services"
      by simp
    with False show ?thesis
      by (subst blacklist_scan.simps) simp
  next
    case True
    show ?thesis
    proof (cases "svc_name (services ! i) = b")
      case hit: True
      let ?x = "services ! i"
      from True have x: "?x \<in> set services" by simp
      from list_remove_filter [OF "1.prems"(1,2) x] hit
      have rm: "list_remove ?x services = filter (\<lambda>s. svc_name s \<noteq> b) services"
        by simp
      then have "\<forall>s \<in> set (list_remove ?x services). svc_name s \<noteq> b"
        by simp
      then have "blacklist_scan b (list_remove ?x services) (Suc i) = list_remove ?x services"
        by (rule blacklist_scan_none)
      with True hit rm show ?thesis
        by (subst blacklist_scan.simps) simp
    next
      case miss: False
      from "1.prems"(3) miss
      have "\<forall>j. j < Suc i \<and> j < length services \<longrightarrow> svc_name (services ! j) \<noteq> b"
        by (auto simp: less_Suc_eq)
      from "1.IH"(2) [OF True miss "1.prems"(1,2) this] True miss show ?thesis
        by (subst blacklist_scan.simps) simp
    qed
  qed
qed

lemma apply_blacklist_filter:
  assumes "distinct (map svc_id services)" and "distinct (map svc_name services)"
  shows "apply_blacklist bs services = filter (\<lambda>s. svc_name s \<notin> set bs) services"
  using assms
proof (induction bs arbitrary: services)
  case Nil
  then show ?case by simp
next
  case (Cons b bs)
  let ?ys = "filter (\<lambda>s. svc_name s \<noteq> b) services"
  from Cons.prems have scan: "blacklist_scan b services 0 = ?ys"
    by (intro blacklist_scan_filter) simp_all
  from Cons.prems have "distinct (map svc_id ?ys)" and "distinct (map svc_name ?ys)"
    by (simp_all add: distinct_map_filter)
  from Cons.IH [OF this] scan
  have "apply_blacklist (b # bs) services =
        filter (\<lambda>s. svc_name s \<notin> set bs) (filter (\<lambda>s. svc_name s \<noteq> b) services)"
    by simp
  also have "\<dots> = filter (\<lambda>s. svc_name s \<notin> set (b # bs)) services"
    by (auto intro: filter_cong)
  finally show ?case .
qed

lemma get_services_filter:
  assumes "distinct (map svc_id (fst (services_list p (filters cfg) (world st))))"
    and "distinct (map svc_name (fst (services_list p (filters cfg) (world st))))"
  shows "fst (get_services p cfg st) =
         filter (\<lambda>service. svc_name service \<notin> set (blacklist cfg))
           (fst (services_list p (filters cfg) (world st)))"
  using apply_blacklist_filter [OF assms, of "blacklist cfg"]
  by (cases "services_list p (filters cfg) (world st)") (simp add: get_services_def)

lemma prime_loop_services_allowed:
  assumes H: "\<forall>w. distinct (map svc_id (fst (services_list p (filters cfg) w))) \<and>
                  distinct (map svc_name (fst (services_list p (filters cfg) w)))"
    and "\<forall>service \<in> set services. svc_name service \<notin> set (blacklist cfg)"
  shows "\<forall>service \<in> set (fst (prime_loop p cfg svcs services st)).
           svc_name service \<notin> set (blacklist cfg)"
  using assms(2)
proof (induction svcs arbitrary: services st)
  case Nil
  then show ?case by simp
next
  case (Cons service rest)
  obtain found w where f: "service_found p service (world st) = (found, w)"
    by (cases "service_found p service (world st)")
  show ?case
  proof (cases found)
    case True
    with Cons.IH [OF Cons.prems] f show ?thesis by simp
  next
    case False
    obtain services' st1 where g: "get_services p cfg (st\<lparr>world := w\<rparr>) = (services', st1)"
      by (cases "get_services p cfg (st\<lparr>world := w\<rparr>)")
    from H have "distinct (map svc_id (fst (services_list p (filters cfg) (world (st\<lparr>world := w\<rparr>)))))"
      and "distinct (map svc_name (fst (services_list p (filters cfg) (world (st\<lparr>world := w\<rparr>)))))"
      by blast+
    from get_services_filter [OF this] g
    have "\<forall>service \<in> set services'. svc_name service \<notin> set (blacklist cfg)"
      by simp
    from Cons.IH [OF this] f False g show ?thesis by simp
  qed
qed

lemma run_cycle_spares:
  assumes H: "\<forall>w. distinct (map svc_id (fst (services_list p (filters cfg) w))) \<and>
                  distinct (map svc_name (fst (services_list p (filters cfg) w)))"
    and res: "run_cycle p cfg st = Some (Inr (services', st'))"
  shows "spares (blacklist cfg) (trace st) (trace st')"
proof -
  obtain svcs st1 where g: "get_services p cfg st = (svcs, st1)"
    by (cases "get_services p cfg st")
  obtain svcs2 st2 where pl: "prime_loop p cfg svcs svcs st1 = (svcs2, st2)"
    by (cases "prime_loop p cfg svcs svcs st1")
  from res g pl have rl: "reconcile_loop p cfg svcs2 svcs2 st2 = Some (Inr (services', st'))"
    by (simp add: run_cycle_def)
  from H have "distinct (map svc_id (fst (services_list p (filters cfg) (world st))))"
    and "distinct (map svc_name (fst (services_list p (filters cfg) (world st))))"
    by blast+
  from get_services_filter [OF this] g
  have a1: "\<forall>service \<in> set svcs. svc_name service \<notin> set (blacklist cfg)"
    by simp
  from prime_loop_services_allowed [OF H a1, of svcs st1] pl
  have a2: "\<forall>service \<in> set svcs2. svc_name service \<notin> set (blacklist cfg)"
    by simp
  from get_services_fields(2) [OF g]
  have "spares (blacklist cfg) (trace st) (trace st1)"
    using spares_app [of "[ServicesList (filters cfg)]" "blacklist cfg" "trace st"] by simp
  moreover from prime_loop_spares [OF a1, of st1 p cfg svcs] pl
  have "spares (blacklist cfg) (trace st1) (trace st2)"
    by simp
  moreover from reconcile_loop_spares [OF a2 rl]
  have "spares (blacklist cfg) (trace st2) (trace st')" .
  ultimately show ?thesis
    using spares_trans by blast
qed

lemma run_spares:
  assumes H: "\<forall>w. distinct (map svc_id (fst (services_list p (filters (self_settings c)) w))) \<and>
                  distinct (map svc_name (fst (services_list p (filters (self_settings c)) w)))"
  shows "run p c k st = Some (Inr st') \<Longrightarrow>
         spares (blacklist (self_settings c)) (trace st) (trace st')"
proof (induction k arbitrary: st)
  case 0
  then show ?case by (simp add: spares_refl)
next
  case (Suc k)
  from Suc.prems obtain sv st1 where
    cyc: "run_cycle p (self_settings c) st = Some (Inr (sv, st1))" and
    rest: "run p c k (emit (Wait (self_sleep c) (self_sleep_type c)) st1) = Some (Inr st')"
    by (auto split: option.splits sum.splits)
  let ?bl = "blacklist (self_settings c)"
  from run_cycle_spares [OF H cyc] have "spares ?bl (trace st) (trace st1)" .
  moreover have "spares ?bl (trace st1) (trace (emit (Wait (self_sleep c) (self_sleep_type c)) st1))"
    using spares_app [of "[Wait (self_sleep c) (self_sleep_type c)]" ?bl "trace st1"]
    by (simp add: emit_fields)
  moreover note Suc.IH [OF rest]
  ultimately show ?case
    using spares_trans by blast
qed

text \<open>
  A cycle raises no exception, and it returns when every convergence wait ends.
\<close>

lemma get_image_parts_total: "\<exists>img sha. get_image_parts s = Inr (img, sha)"
proof (cases "CHR ''@'' \<in> set s")
  case False
  then show ?thesis by (simp add: get_image_parts_no_at)
next
  case True
  then obtain l r where "s = l @ CHR ''@'' # r" and "CHR ''@'' \<notin> set l"
    by (meson split_list_first)
  then show ?thesis by (simp add: get_image_parts_at)
qed

lemma reconcile_service_no_raise:
  "reconcile_service p cfg service services st \<noteq> Some (Inl e)"
proof -
  obtain img sha where "get_image_parts (svc_image service) = Inr (img, sha)"
    using get_image_parts_total by blast
  then show ?thesis
    by (simp add: reconcile_service_def split: prod.splits option.splits)
qed

lemma reconcile_loop_no_raise:
  "reconcile_loop p cfg svcs services st \<noteq> Some (Inl e)"
proof (induction svcs arbitrary: services st)
  case Nil
  show ?case by simp
next
  case (Cons service rest)
  show ?case
    using reconcile_service_no_raise [of p cfg service services st] Cons.IH
    by (simp split: option.splits sum.splits)
qed

lemma run_cycle_no_raise: "run_cycle p cfg st \<noteq> Some (Inl e)"
  by (simp add: run_cycle_def reconcile_loop_no_raise split: prod.splits)

lemma run_no_raise: "run p c k st \<noteq> Some (Inl e)"
proof (induction k arbitrary: st)
  case 0
  show ?case by simp
next
  case (Suc k)
  show ?case
    using run_cycle_no_raise [of p "self_settings c" st] Suc.IH
    by (simp split: option.splits sum.splits)
qed

lemma reconcile_service_returns:
  assumes "\<forall>service w. \<exists>m. settles p service w m"
  shows "\<exists>services' st'. reconcile_service p cfg service services st = Some (Inr (services', st'))"
proof -
  obtain img sha where parts: "get_image_parts (svc_image service) = Inr (img, sha)"
    using get_image_parts_total by blast
  obtain upd st1 where g: "get_updated_image p img sha st = (upd, st1)"
    by (cases "get_updated_image p img sha st")
  obtain ok st2 where u:
    "(case upd of None \<Rightarrow> (False, st1) | Some u \<Rightarrow> update_image p service u st1) = (ok, st2)"
    by (cases "case upd of None \<Rightarrow> (False, st1) | Some u \<Rightarrow> update_image p service u st1")
  show ?thesis
  proof (cases ok)
    case False
    with parts g u show ?thesis
      by (simp add: reconcile_service_def)
  next
    case True
    from assms obtain m where "settles p service (world st2) m"
      by blast
    from wait_updating_settles [OF this, of cfg services] obtain s' sv' st3 where
      "wait_updating p cfg service services st2 = Some (s', sv', st3)"
      by blast
    with True parts g u show ?thesis
      by (simp add: reconcile_service_def)
  qed
qed

lemma reconcile_loop_returns:
  assumes "\<forall>service w. \<exists>m. settles p service w m"
  shows "\<exists>services' st'. reconcile_loop p cfg svcs services st = Some (Inr (services', st'))"
proof (induction svcs arbitrary: services st)
  case Nil
  show ?case by simp
next
  case (Cons service rest)
  from reconcile_service_returns [OF assms, of cfg service services st] obtain sv1 st1 where
    "reconcile_service p cfg service services st = Some (Inr (sv1, st1))"
    by blast
  with Cons.IH [of sv1 st1] show ?case
    by simp
qed

lemma run_cycle_returns:
  assumes "\<forall>service w. \<exists>m. settles p service w m"
  shows "\<exists>services' st'. run_cycle p cfg st = Some (Inr (services', st'))"
  using reconcile_loop_returns [OF assms]
  by (simp add: run_cycle_def split: prod.splits)

lemma run_returns:
  assumes "\<forall>service w. \<exists>m. settles p service w m"
  shows "\<exists>st'. run p c k st = Some (Inr st')"
proof (induction k arbitrary: st)
  case 0
  show ?case by simp
next
  case (Suc k)
  from run_cycle_returns [OF assms, of "self_settings c" st] obtain sv st1 where
    "run_cycle p (self_settings c) st = Some (Inr (sv, st1))"
    by blast
  with Suc.IH [of "emit (Wait (self_sleep c) (self_sleep_type c)) st1"] show ?case
    by simp
qed

text \<open>
  Claim C3. The hypothesis is that the services of one listing have pairwise distinct
  ids and pairwise distinct names, as the services of a swarm have. Then
  \<open>get_services\<close> returns the listing without the services whose name is an entry of
  the blacklist, where a name is an entry when the two strings are equal; the list the
  reconciliation pass runs over holds no service with such a name; and in a cycle that
  returns, and in any number of passes of \<open>run\<close> that return, every update call, every
  notification and every counter call is made with a name that is not in the
  blacklist. Nothing is assumed about the digests. A cycle and the passes of \<open>run\<close>
  raise no exception, and they return when every convergence wait ends.
\<close>

theorem blacklisted_never_called:
  assumes "\<forall>w. distinct (map svc_id (fst (services_list p (filters cfg) w))) \<and>
               distinct (map svc_name (fst (services_list p (filters cfg) w)))"
  shows "fst (get_services p cfg st) =
           filter (\<lambda>service. svc_name service \<notin> set (blacklist cfg))
             (fst (services_list p (filters cfg) (world st))) \<and>
         (\<forall>service \<in> set (fst (prime_loop p cfg (fst (get_services p cfg st))
                                  (fst (get_services p cfg st)) (snd (get_services p cfg st)))).
            svc_name service \<notin> set (blacklist cfg)) \<and>
         (\<forall>services' st'. run_cycle p cfg st = Some (Inr (services', st')) \<longrightarrow>
            (\<exists>es. trace st' = trace st @ es \<and>
               (\<forall>n \<in> set (called_names es). n \<notin> set (blacklist cfg)))) \<and>
         (\<forall>st'. run p \<lparr>self_settings = cfg, self_sleep = sl, self_sleep_type = ty\<rparr> k st =
                  Some (Inr st') \<longrightarrow>
            (\<exists>es. trace st' = trace st @ es \<and>
               (\<forall>n \<in> set (called_names es). n \<notin> set (blacklist cfg)))) \<and>
         (\<forall>e. run_cycle p cfg st \<noteq> Some (Inl e)) \<and>
         (\<forall>e. run p \<lparr>self_settings = cfg, self_sleep = sl, self_sleep_type = ty\<rparr> k st \<noteq>
                Some (Inl e)) \<and>
         ((\<forall>service w. \<exists>m. settles p service w m) \<longrightarrow>
            (\<exists>services' st'. run_cycle p cfg st = Some (Inr (services', st'))) \<and>
            (\<exists>st'. run p \<lparr>self_settings = cfg, self_sleep = sl, self_sleep_type = ty\<rparr> k st =
                     Some (Inr st')))"
proof (intro conjI allI impI)
  from assms have d: "distinct (map svc_id (fst (services_list p (filters cfg) (world st))))"
    "distinct (map svc_name (fst (services_list p (filters cfg) (world st))))"
    by blast+
  then show f: "fst (get_services p cfg st) =
           filter (\<lambda>service. svc_name service \<notin> set (blacklist cfg))
             (fst (services_list p (filters cfg) (world st)))"
    by (rule get_services_filter)
  then have "\<forall>service \<in> set (fst (get_services p cfg st)).
               svc_name service \<notin> set (blacklist cfg)"
    by simp
  with assms
  show "\<forall>service \<in> set (fst (prime_loop p cfg (fst (get_services p cfg st))
                                  (fst (get_services p cfg st)) (snd (get_services p cfg st)))).
            svc_name service \<notin> set (blacklist cfg)"
    by (rule prime_loop_services_allowed)
next
  fix services' st'
  assume "run_cycle p cfg st = Some (Inr (services', st'))"
  with assms have "spares (blacklist cfg) (trace st) (trace st')"
    by (rule run_cycle_spares)
  then show "\<exists>es. trace st' = trace st @ es \<and>
               (\<forall>n \<in> set (called_names es). n \<notin> set (blacklist cfg))"
    by (simp add: spares_iff)
next
  fix st'
  let ?c = "\<lparr>self_settings = cfg, self_sleep = sl, self_sleep_type = ty\<rparr>"
  assume r: "run p ?c k st = Some (Inr st')"
  from assms
  have "\<forall>w. distinct (map svc_id (fst (services_list p (filters (self_settings ?c)) w))) \<and>
            distinct (map svc_name (fst (services_list p (filters (self_settings ?c)) w)))"
    by simp
  from run_spares [OF this r] have "spares (blacklist cfg) (trace st) (trace st')"
    by simp
  then show "\<exists>es. trace st' = trace st @ es \<and>
               (\<forall>n \<in> set (called_names es). n \<notin> set (blacklist cfg))"
    by (simp add: spares_iff)
next
  fix e
  show "run_cycle p cfg st \<noteq> Some (Inl e)"
    by (rule run_cycle_no_raise)
next
  fix e
  show "run p \<lparr>self_settings = cfg, self_sleep = sl, self_sleep_type = ty\<rparr> k st \<noteq> Some (Inl e)"
    by (rule run_no_raise)
next
  assume "\<forall>service w. \<exists>m. settles p service w m"
  then show "\<exists>services' st'. run_cycle p cfg st = Some (Inr (services', st'))"
    by (rule run_cycle_returns)
next
  assume "\<forall>service w. \<exists>m. settles p service w m"
  then show "\<exists>st'. run p \<lparr>self_settings = cfg, self_sleep = sl, self_sleep_type = ty\<rparr> k st =
                     Some (Inr st')"
    by (rule run_returns)
qed

theorem blacklisted_never_called_witness:
  "(\<forall>w. distinct (map svc_id (fst (services_list (platform_rolling (\<lambda>service. True) 0 0)
            (filters (default_settings\<lparr>blacklist := [''api'']\<rparr>)) w))) \<and>
        distinct (map svc_name (fst (services_list (platform_rolling (\<lambda>service. True) 0 0)
            (filters (default_settings\<lparr>blacklist := [''api'']\<rparr>)) w)))) \<and>
   (\<forall>service w. \<exists>m. settles (platform_rolling (\<lambda>service. True) 0 0) service w m) \<and>
   fst (services_list (platform_rolling (\<lambda>service. True) 0 0)
          (filters (default_settings\<lparr>blacklist := [''api'']\<rparr>)) (world start_state)) =
     [svc_web, svc_api] \<and>
   fst (get_services (platform_rolling (\<lambda>service. True) 0 0)
          (default_settings\<lparr>blacklist := [''api'']\<rparr>) start_state) = [svc_web] \<and>
   fst (get_services (platform_rolling (\<lambda>service. True) 0 0)
          (default_settings\<lparr>blacklist := [''API'', ''a*'']\<rparr>) start_state) =
     [svc_web, svc_api] \<and>
   (\<exists>st'. run_cycle (platform_rolling (\<lambda>service. True) 0 0)
            (default_settings\<lparr>blacklist := [''api'']\<rparr>) start_state =
            Some (Inr ([svc_web], st')) \<and>
          called_names (trace st') = [''web'', ''web'', ''web'', ''web''] \<and>
          ''api'' \<notin> set (called_names (trace st'))) \<and>
   (\<exists>st'. run (platform_rolling (\<lambda>service. True) 0 0)
            \<lparr>self_settings = default_settings\<lparr>blacklist := [''api'']\<rparr>, self_sleep = 5,
               self_sleep_type = Minutes\<rparr> 2 start_state = Some (Inr st') \<and>
          called_names (trace st') =
            [''web'', ''web'', ''web'', ''web'', ''web'', ''web'', ''web'', ''web''] \<and>
          ''api'' \<notin> set (called_names (trace st')))"
proof -
  let ?p = "platform_rolling (\<lambda>service. True) 0 0"
  let ?cfg = "default_settings\<lparr>blacklist := [''api'']\<rparr>"
  let ?c = "\<lparr>self_settings = ?cfg, self_sleep = 5, self_sleep_type = Minutes\<rparr>"
  have h: "\<forall>w. distinct (map svc_id (fst (services_list ?p (filters ?cfg) w))) \<and>
               distinct (map svc_name (fst (services_list ?p (filters ?cfg) w)))"
    by (simp add: fixture_eval)
  have s: "\<forall>service w. \<exists>m. settles ?p service w m"
  proof (intro allI)
    fix service w
    have "settles ?p service w 0"
      by (simp add: fixture_eval)
    then show "\<exists>m. settles ?p service w m" ..
  qed
  have l: "fst (services_list ?p (filters ?cfg) (world start_state)) = [svc_web, svc_api]"
    by (simp add: fixture_eval)
  have b: "blacklist ?cfg = [''api'']" "svc_name svc_web = ''web''" "svc_name svc_api = ''api''"
    by (simp_all add: fixture_eval)
  have t: "trace start_state = []"
    by (simp add: start_state_def)
  note never = blacklisted_never_called [OF h, of start_state 5 Minutes 2]
  have l': "fst (services_list ?p f w) = [svc_web, svc_api]" for f w
    by (simp add: fixture_eval)
  from never [THEN conjunct1] have g: "fst (get_services ?p ?cfg start_state) = [svc_web]"
    by (simp add: l' b)
  have "\<forall>w. distinct (map svc_id (fst (services_list ?p
                 (filters (default_settings\<lparr>blacklist := [''API'', ''a*'']\<rparr>)) w))) \<and>
             distinct (map svc_name (fst (services_list ?p
                 (filters (default_settings\<lparr>blacklist := [''API'', ''a*'']\<rparr>)) w)))"
    by (simp add: fixture_eval)
  from blacklisted_never_called [OF this, of start_state 5 Minutes 2, THEN conjunct1]
  have g': "fst (get_services ?p (default_settings\<lparr>blacklist := [''API'', ''a*'']\<rparr>)
                  start_state) = [svc_web, svc_api]"
    by (simp add: l' b)
  have "\<exists>st'. run_cycle ?p ?cfg start_state = Some (Inr ([svc_web], st')) \<and>
          called_names (trace st') = [''web'', ''web'', ''web'', ''web'']"
    by (simp add: fixture_eval wait_updating.simps blacklist_scan.simps)
  then obtain st1 where
    c1: "run_cycle ?p ?cfg start_state = Some (Inr ([svc_web], st1))" and
    n1: "called_names (trace st1) = [''web'', ''web'', ''web'', ''web'']"
    by blast
  have "\<exists>st'. run ?p ?c 2 start_state = Some (Inr st') \<and>
          called_names (trace st') =
            [''web'', ''web'', ''web'', ''web'', ''web'', ''web'', ''web'', ''web'']"
    by (simp add: fixture_eval wait_updating.simps blacklist_scan.simps numeral_2_eq_2)
  then obtain st2 where
    c2: "run ?p ?c 2 start_state = Some (Inr st2)" and
    n2: "called_names (trace st2) =
           [''web'', ''web'', ''web'', ''web'', ''web'', ''web'', ''web'', ''web'']"
    by blast
  from never [THEN conjunct2, THEN conjunct2, THEN conjunct1, rule_format, OF c1] t
  have a1: "''api'' \<notin> set (called_names (trace st1))"
    by (auto simp: b)
  from never [THEN conjunct2, THEN conjunct2, THEN conjunct2, THEN conjunct1,
      rule_format, OF c2] t
  have a2: "''api'' \<notin> set (called_names (trace st2))"
    by (auto simp: b)
  from h s l g g' c1 n1 a1 c2 n2 a2 show ?thesis
    by blast
qed

text \<open>
  The hypothesis on the names is used: the inner loop of \<open>get_services\<close> removes from
  the list it iterates, so of two services with the same name, listed one after the
  other, the second is never compared with the entry.
\<close>

lemma apply_blacklist_same_name:
  "apply_blacklist [''worker''] [svc_worker, svc_worker2, svc_web] = [svc_worker2, svc_web]"
  by (simp add: fixture_eval blacklist_scan.simps)

end
